theory Spec2Isabelle
  imports Complex_Main "HOL-Library.AList" "HOL-Library.Product_Lexorder" "HOL-Library.Log_Nat"
begin

section \<open>Python arithmetic used by the navigation code\<close>

text \<open>
  Coordinates of the environment are multiples of a hundredth and path costs are small
  whole numbers; the floats that carry them are modelled by the reals they denote.

  \<^item> \<open>py_round\<close> is the built-in \<open>round(x)\<close>: nearest integer, a tie going to the even one.
  \<^item> \<open>py_int\<close> is truncation towards zero, as in \<open>int(x)\<close> and in the quotient of C's
    \<open>fmod\<close>.
\<close>

definition py_round :: "real \<Rightarrow> int" where
  "py_round x =
     (let f = \<lfloor>x\<rfloor>; d = x - of_int f
      in if d < 1 / 2 then f
         else if 1 / 2 < d then f + 1
         else if even f then f else f + 1)"

definition py_int :: "real \<Rightarrow> int" where
  "py_int x = (if 0 \<le> x then \<lfloor>x\<rfloor> else \<lceil>x\<rceil>)"

text \<open>
  Exceptions are values: a function that can raise returns \<open>py_error + 'a\<close>, with \<open>Inl\<close>
  the exception. \<open>RuntimeError\<close>, \<open>ValueError\<close> and \<open>OverflowError\<close> carry their message.
\<close>

datatype py_error =
  RuntimeError string | ValueError string | OverflowError string | ZeroDivisionError
  | KeyError | AttributeError | TypeError

subsection \<open>Floats with rounding\<close>

text \<open>
  A heading is whatever float the environment reports, and \<open>normalize_yaw\<close> does float
  arithmetic on it; there a float is modelled as the binary64 value it is: finite (given
  by the real it denotes), an infinity, or NaN. Negative zero is not told apart from zero
  (none of the operations below distinguishes them in its result).

  \<open>round_double\<close> rounds a real to the nearest double. With \<open>2 ^ e \<le> \<bar>x\<bar> < 2 ^ (e + 1)\<close>
  (\<open>e = binade x\<close>) the doubles around \<open>x\<close> are the multiples of \<open>quantum x = 2 ^ (e - 52)\<close>,
  the exponent being at least \<open>-1022\<close>; a tie goes to the even multiple, and a result of
  magnitude \<open>2 ^ 1024\<close> or more is an infinity. \<open>is_double x\<close> says that \<open>x\<close> is a double.
\<close>

datatype py_float = Finite real | PosInf | NegInf | NaN

definition binade :: "real \<Rightarrow> int" where
  "binade x = (if 1 \<le> \<bar>x\<bar> then bitlen \<lfloor>\<bar>x\<bar>\<rfloor> - 1 else - bitlen (\<lceil>1 / \<bar>x\<bar>\<rceil> - 1))"

definition quantum :: "real \<Rightarrow> real" where
  "quantum x = 2 powi (max (binade x) (- 1022) - 52)"

definition round_double :: "real \<Rightarrow> py_float" where
  "round_double x =
     (if x = 0 then Finite 0
      else (let r = of_int (py_round (x / quantum x)) * quantum x
            in if 2 ^ 1024 \<le> r then PosInf
               else if r \<le> - (2 ^ 1024) then NegInf
               else Finite r))"


text \<open>
  The float operators \<open>+\<close>, \<open>*\<close>, \<open>/\<close> and \<open>%\<close>. A NaN operand gives NaN, the exact result
  of two finite operands is rounded, and \<open>/\<close> and \<open>%\<close> raise \<open>ZeroDivisionError\<close> on a zero
  divisor whatever the dividend. \<open>%\<close> is C's \<open>fmod\<close> (exact, the quotient truncated), and the
  divisor is added to a non-zero remainder whose sign differs from the divisor's.
\<close>

definition float_sign :: "py_float \<Rightarrow> real" where
  "float_sign a = (case a of Finite x \<Rightarrow> sgn x | PosInf \<Rightarrow> 1 | NegInf \<Rightarrow> - 1 | NaN \<Rightarrow> 0)"

definition signed_inf :: "real \<Rightarrow> py_float" where
  "signed_inf s = (if s = 0 then NaN else if 0 < s then PosInf else NegInf)"

fun float_add :: "py_float \<Rightarrow> py_float \<Rightarrow> py_float" where
  "float_add (Finite x) (Finite y) = round_double (x + y)"
| "float_add NaN b = NaN"
| "float_add a NaN = NaN"
| "float_add PosInf NegInf = NaN"
| "float_add NegInf PosInf = NaN"
| "float_add PosInf b = PosInf"
| "float_add a PosInf = PosInf"
| "float_add NegInf b = NegInf"
| "float_add a NegInf = NegInf"

fun float_mul :: "py_float \<Rightarrow> py_float \<Rightarrow> py_float" where
  "float_mul (Finite x) (Finite y) = round_double (x * y)"
| "float_mul NaN b = NaN"
| "float_mul a NaN = NaN"
| "float_mul a b = signed_inf (float_sign a * float_sign b)"

fun float_div :: "py_float \<Rightarrow> py_float \<Rightarrow> py_error + py_float" where
  "float_div a (Finite y) =
     (if y = 0 then Inl ZeroDivisionError
      else (case a of
              Finite x \<Rightarrow> Inr (round_double (x / y))
            | NaN \<Rightarrow> Inr NaN
            | _ \<Rightarrow> Inr (signed_inf (float_sign a * sgn y))))"
| "float_div a NaN = Inr NaN"
| "float_div (Finite x) b = Inr (Finite 0)"
| "float_div a b = Inr NaN"

definition c_fmod :: "real \<Rightarrow> real \<Rightarrow> real" where
  "c_fmod x y = x - y * of_int (py_int (x / y))"

fun float_mod :: "py_float \<Rightarrow> py_float \<Rightarrow> py_error + py_float" where
  "float_mod a (Finite y) =
     (if y = 0 then Inl ZeroDivisionError
      else (case a of
              Finite x \<Rightarrow>
                (let m = c_fmod x y
                 in if m \<noteq> 0 \<and> (y < 0) \<noteq> (m < 0) then Inr (round_double (m + y))
                    else Inr (Finite m))
            | _ \<Rightarrow> Inr NaN))"
| "float_mod a NaN = Inr NaN"
| "float_mod (Finite x) PosInf = Inr (if x < 0 then PosInf else Finite x)"
| "float_mod (Finite x) NegInf = Inr (if 0 < x then NegInf else Finite x)"
| "float_mod a b = Inr NaN"

text \<open>
  \<open>math.floor\<close> and \<open>int\<close> on a float give an (unbounded) integer and raise on NaN and
  on an infinity; an integer operand of a float operator is first converted to a float,
  which raises when it is too large.
\<close>

definition math_floor :: "py_float \<Rightarrow> py_error + int" where
  "math_floor a =
     (case a of
        Finite x \<Rightarrow> Inr \<lfloor>x\<rfloor>
      | NaN \<Rightarrow> Inl (ValueError ''cannot convert float NaN to integer'')
      | _ \<Rightarrow> Inl (OverflowError ''cannot convert float infinity to integer''))"

definition int_of_float :: "py_float \<Rightarrow> py_error + int" where
  "int_of_float a =
     (case a of
        Finite x \<Rightarrow> Inr (py_int x)
      | NaN \<Rightarrow> Inl (ValueError ''cannot convert float NaN to integer'')
      | _ \<Rightarrow> Inl (OverflowError ''cannot convert float infinity to integer''))"

definition float_of_int :: "int \<Rightarrow> py_error + py_float" where
  "float_of_int k =
     (case round_double (of_int k) of
        Finite r \<Rightarrow> Inr (Finite r)
      | _ \<Rightarrow> Inl (OverflowError ''int too large to convert to float''))"

section \<open>Grid indexer (nav\_astar.py)\<close>

text \<open>
  \<open>PositionKey\<close> is a pair of coordinates rounded to \<open>PRECISION = 2\<close> decimals; a key is
  kept as the pair of its coordinates counted in hundredths, so \<open>STEP_SIZE = 0.25\<close> is 25
  hundredths. A position record is reduced to its \<open>x\<close> and \<open>z\<close> fields, the only ones the
  navigation code reads.
\<close>

type_synonym PositionKey = "int \<times> int"
type_synonym position = "real \<times> real"

definition STEP_SIZE :: real where
  "STEP_SIZE = 25 / 100"

definition make_key :: "real \<Rightarrow> real \<Rightarrow> PositionKey" where
  "make_key x z = (py_round (x * 100), py_round (z * 100))"

text \<open>
  \<open>normalize_yaw\<close>: \<open>int((math.floor((yaw + 45.0) / 90.0) * 90.0) % 360.0)\<close>, one float
  operation after the other.
\<close>

definition normalize_yaw :: "py_float \<Rightarrow> py_error + int" where
  "normalize_yaw yaw =
     (case float_div (float_add yaw (Finite 45)) (Finite 90) of
        Inl e \<Rightarrow> Inl e
      | Inr q \<Rightarrow>
          (case math_floor q of
             Inl e \<Rightarrow> Inl e
           | Inr k \<Rightarrow>
               (case float_of_int k of
                  Inl e \<Rightarrow> Inl e
                | Inr kf \<Rightarrow>
                    (case float_mod (float_mul kf (Finite 90)) (Finite 360) of
                       Inl e \<Rightarrow> Inl e
                     | Inr r \<Rightarrow> int_of_float r))))"

text \<open>
  \<open>CARDINAL_DIRECTIONS\<close>: the offset of one step for each cardinal heading, in the
  dictionary's own order, and the lookup that raises \<open>KeyError\<close> on any other heading
  (\<open>None\<close> here).
\<close>

definition CARDINAL_DIRECTIONS :: "(int \<times> position) list" where
  "CARDINAL_DIRECTIONS =
     [(0, (0, STEP_SIZE)), (90, (STEP_SIZE, 0)), (180, (0, - STEP_SIZE)), (270, (- STEP_SIZE, 0))]"

definition cardinal :: "int \<Rightarrow> bool" where
  "cardinal yaw = (yaw = 0 \<or> yaw = 90 \<or> yaw = 180 \<or> yaw = 270)"


text \<open>
  The node table is a Python dictionary from keys to position records. Dictionaries
  iterate in insertion order, so the table is an association list with distinct keys, in
  that order; storing under a key that is present replaces the value in place, storing
  under a new key appends (\<open>AList.update\<close>).
\<close>

type_synonym nodes = "(PositionKey \<times> position) list"

definition build_node_lookup :: "position list \<Rightarrow> nodes" where
  "build_node_lookup positions =
     foldl (\<lambda>tbl pos. AList.update (make_key (fst pos) (snd pos)) pos tbl) [] positions"

text \<open>
  The built-in \<open>min(iterable, key=f)\<close>: one pass that keeps the first item seen and
  replaces it only by a strictly smaller one, so the first of several minimal items is
  returned; an empty iterable raises \<open>ValueError\<close>.
\<close>

fun py_min_from :: "('a \<Rightarrow> real) \<Rightarrow> 'a \<Rightarrow> 'a list \<Rightarrow> 'a" where
  "py_min_from f best [] = best"
| "py_min_from f best (x # xs) = (if f x < f best then py_min_from f x xs else py_min_from f best xs)"

definition py_min :: "('a \<Rightarrow> real) \<Rightarrow> 'a list \<Rightarrow> py_error + 'a" where
  "py_min f xs =
     (case xs of
        [] \<Rightarrow> Inl (ValueError ''min() arg is an empty sequence'')
      | x # rest \<Rightarrow> Inr (py_min_from f x rest))"

text \<open>
  \<open>nearest_key\<close>. The key function of the scan reads \<open>nodes[k]\<close> for a key \<open>k\<close> of the
  table: the position listed with \<open>k\<close>.
\<close>

definition sq_dist :: "position \<Rightarrow> position \<Rightarrow> real" where
  "sq_dist p q = (fst p - fst q)\<^sup>2 + (snd p - snd q)\<^sup>2"

definition nearest_key :: "nodes \<Rightarrow> position \<Rightarrow> py_error + PositionKey" where
  "nearest_key nodes position =
     (let key = make_key (fst position) (snd position)
      in if key \<in> set (map fst nodes) then Inr key
         else map_sum id fst (py_min (\<lambda>item. sq_dist (snd item) position) nodes))"

section \<open>Rotation decomposer\<close>

datatype action = MoveAhead | RotateLeft | RotateRight

definition rotation_actions :: "int \<Rightarrow> int \<Rightarrow> action list" where
  "rotation_actions current_yaw target_yaw =
     (let diff = (target_yaw - current_yaw) mod 360
      in if diff = 0 then []
         else if diff = 90 then [RotateRight]
         else if diff = 180 then [RotateRight, RotateRight]
         else if diff = 270 then [RotateLeft]
         else if diff < 180 then replicate (nat (py_round (of_int diff / 90))) RotateRight
         else replicate (nat (py_round ((360 - of_int diff) / 90))) RotateLeft)"

text \<open>
  \<open>EvalLLMAstar._turn_actions\<close> (eval\_llm\_astar.py): the desired heading is optional; both
  headings are snapped with \<open>normalize_yaw\<close> (imported as \<open>snap_yaw\<close>), the current one first,
  an exception of either being raised; and the table of the rotation decomposer is written
  out a second time.
\<close>

definition turn_actions :: "py_float \<Rightarrow> py_float option \<Rightarrow> py_error + action list" where
  "turn_actions current_yaw desired_yaw =
     (case desired_yaw of
        None \<Rightarrow> Inr []
      | Some d \<Rightarrow>
          (case normalize_yaw current_yaw of
             Inl e \<Rightarrow> Inl e
           | Inr current \<Rightarrow>
               (case normalize_yaw d of
                  Inl e \<Rightarrow> Inl e
                | Inr desired \<Rightarrow>
                    (let diff = (desired - current) mod 360
                     in if diff = 0 then Inr []
                        else if diff = 90 then Inr [RotateRight]
                        else if diff = 180 then Inr [RotateRight, RotateRight]
                        else if diff = 270 then Inr [RotateLeft]
                        else if diff < 180
                        then Inr (replicate (nat (py_round (of_int diff / 90))) RotateRight)
                        else Inr (replicate (nat (py_round ((360 - of_int diff) / 90))) RotateLeft)))))"

section \<open>Adjacency builder\<close>

text \<open>
  \<open>dict_get\<close> is subscription \<open>d[k]\<close>, which raises \<open>KeyError\<close> on a missing key.
\<close>

definition dict_get :: "('k \<times> 'v) list \<Rightarrow> 'k \<Rightarrow> py_error + 'v" where
  "dict_get d k = (case map_of d k of None \<Rightarrow> Inl KeyError | Some v \<Rightarrow> Inr v)"

type_synonym adjacency = "(PositionKey \<times> PositionKey list) list"

definition build_adjacency :: "nodes \<Rightarrow> adjacency" where
  "build_adjacency nodes =
     map (\<lambda>(key, pos).
            (key, filter (\<lambda>neighbor_key. neighbor_key \<in> set (map fst nodes))
                    (map (\<lambda>(yaw, (dx, dz)). make_key (fst pos + dx) (snd pos + dz))
                       CARDINAL_DIRECTIONS)))
       nodes"

section \<open>A* planner\<close>

text \<open>
  A search state is a key with a heading. An entry of the open list is the tuple
  \<open>(f, g, counter, state)\<close>; Python compares tuples lexicographically, which is the order
  of \<open>Product_Lexorder\<close>. The path cost \<open>g\<close> only ever takes the values \<open>0.0, 1.0, 2.0, \<dots>\<close>
  and is kept as a natural number. \<open>heapq\<close> is used as a priority queue: \<open>heappush\<close> adds an
  entry and \<open>heappop\<close> removes and returns the least one.
\<close>

type_synonym search_state = "PositionKey \<times> int"
type_synonym 'g heap_entry = "real \<times> 'g \<times> nat \<times> search_state"

definition heappush :: "'a list \<Rightarrow> 'a \<Rightarrow> 'a list" where
  "heappush heap item = heap @ [item]"

definition heappop :: "('a :: linorder) list \<Rightarrow> ('a \<times> 'a list) option" where
  "heappop heap =
     (case heap of
        [] \<Rightarrow> None
      | x # xs \<Rightarrow> (let m = fold min xs x in Some (m, remove1 m heap)))"

record astar_state =
  open_heap :: "nat heap_entry list"
  came_from :: "search_state \<rightharpoonup> search_state \<times> action"
  g_score :: "search_state \<rightharpoonup> nat"
  counter :: nat

text \<open>
  The heuristic of \<open>astar_actions\<close>, with the default \<open>step_size = STEP_SIZE\<close> that every
  caller uses: \<open>math.hypot\<close> of the two coordinate differences, in steps.
\<close>

definition astar_heuristic :: "nodes \<Rightarrow> PositionKey \<Rightarrow> PositionKey \<Rightarrow> py_error + real" where
  "astar_heuristic nodes goal_key key =
     (case dict_get nodes key of
        Inl e \<Rightarrow> Inl e
      | Inr pos \<Rightarrow>
          (case dict_get nodes goal_key of
             Inl e \<Rightarrow> Inl e
           | Inr goal \<Rightarrow> Inr (sqrt ((fst pos - fst goal)\<^sup>2 + (snd pos - snd goal)\<^sup>2) / STEP_SIZE)))"

text \<open>
  The three blocks "rotate left", "rotate right" and "move ahead" of the loop body have
  the same text: with \<open>tentative_g = current_g + 1\<close>, when it improves on the recorded cost
  of the new state (a missing record counts as infinite), record cost and predecessor and
  push the entry with the next counter value. \<open>hkey\<close> is the key the heuristic is called on.
\<close>

definition relax ::
  "nodes \<Rightarrow> PositionKey \<Rightarrow> search_state \<Rightarrow> nat \<Rightarrow> search_state \<Rightarrow> action \<Rightarrow> PositionKey
     \<Rightarrow> astar_state \<Rightarrow> py_error + astar_state" where
  "relax nodes goal_key current_state current_g new_state act hkey st =
     (let tentative_g = current_g + 1
      in if (case g_score st new_state of None \<Rightarrow> True | Some old \<Rightarrow> tentative_g < old)
         then (case astar_heuristic nodes goal_key hkey of
                 Inl e \<Rightarrow> Inl e
               | Inr h \<Rightarrow>
                   Inr (st\<lparr>g_score := (g_score st)(new_state \<mapsto> tentative_g),
                          came_from := (came_from st)(new_state \<mapsto> (current_state, act)),
                          open_heap := heappush (open_heap st)
                             (real tentative_g + h, tentative_g, counter st, new_state),
                          counter := counter st + 1\<rparr>))
         else Inr st)"

text \<open>
  The cell one step ahead: \<open>CARDINAL_DIRECTIONS[current_yaw]\<close> and \<open>nodes[current_pos]\<close>
  raise \<open>KeyError\<close> when the heading is not cardinal or the key is not in the table.
\<close>

definition forward_key :: "nodes \<Rightarrow> PositionKey \<Rightarrow> int \<Rightarrow> py_error + PositionKey" where
  "forward_key nodes current_pos current_yaw =
     (case dict_get CARDINAL_DIRECTIONS current_yaw of
        Inl e \<Rightarrow> Inl e
      | Inr (forward_dx, forward_dz) \<Rightarrow>
          (case dict_get nodes current_pos of
             Inl e \<Rightarrow> Inl e
           | Inr pos \<Rightarrow> Inr (make_key (fst pos + forward_dx) (snd pos + forward_dz))))"

definition move_ahead ::
  "nodes \<Rightarrow> adjacency \<Rightarrow> PositionKey \<Rightarrow> search_state \<Rightarrow> nat \<Rightarrow> astar_state
     \<Rightarrow> py_error + astar_state" where
  "move_ahead nodes adjacency goal_key current_state current_g st =
     (case forward_key nodes (fst current_state) (snd current_state) of
        Inl e \<Rightarrow> Inl e
      | Inr neighbor_key \<Rightarrow>
          (case dict_get adjacency (fst current_state) of
             Inl e \<Rightarrow> Inl e
           | Inr neighbors \<Rightarrow>
               if neighbor_key \<in> set neighbors
               then relax nodes goal_key current_state current_g
                      (neighbor_key, snd current_state) MoveAhead neighbor_key st
               else Inr st))"

text \<open>
  The part of the loop body after the goal test: the three successors of the state that
  was popped, in the order of the source.
\<close>

definition expand ::
  "nodes \<Rightarrow> adjacency \<Rightarrow> PositionKey \<Rightarrow> search_state \<Rightarrow> nat \<Rightarrow> astar_state
     \<Rightarrow> py_error + astar_state" where
  "expand nodes adjacency goal_key current_state current_g st =
     (let current_pos = fst current_state; current_yaw = snd current_state
      in case relax nodes goal_key current_state current_g
                (current_pos, (current_yaw - 90) mod 360) RotateLeft current_pos st of
           Inl e \<Rightarrow> Inl e
         | Inr st1 \<Rightarrow>
             (case relax nodes goal_key current_state current_g
                     (current_pos, (current_yaw + 90) mod 360) RotateRight current_pos st1 of
                Inl e \<Rightarrow> Inl e
              | Inr st2 \<Rightarrow> move_ahead nodes adjacency goal_key current_state current_g st2))"

text \<open>
  Walking the predecessor records back from the state that reached the goal. The actions
  are appended as they are met and reversed at the end. The walk has no bound of its own:
  \<open>None\<close> stands for a walk that never ends.
\<close>

partial_function (option) reconstruct ::
  "(search_state \<rightharpoonup> search_state \<times> action) \<Rightarrow> search_state \<Rightarrow> action list
     \<Rightarrow> action list option" where
  "reconstruct cf current_state actions =
     (case cf current_state of
        None \<Rightarrow> Some actions
      | Some (prev_state, act) \<Rightarrow> reconstruct cf prev_state (actions @ [act]))"

text \<open>
  The \<open>while open_heap\<close> loop. \<open>None\<close> stands for a loop that never ends; \<open>Some (Inl e)\<close>
  for an exception, \<open>Some (Inr plan)\<close> for the returned plan.
\<close>

partial_function (option) astar_loop ::
  "nodes \<Rightarrow> adjacency \<Rightarrow> PositionKey \<Rightarrow> astar_state \<Rightarrow> (py_error + action list) option" where
  "astar_loop nodes adjacency goal_key st =
     (case heappop (open_heap st) of
        None \<Rightarrow> Some (Inl (RuntimeError ''No path found to target''))
      | Some ((f, current_g, c, current_state), rest) \<Rightarrow>
          if fst current_state = goal_key
          then map_option (\<lambda>actions. Inr (rev actions)) (reconstruct (came_from st) current_state [])
          else (case expand nodes adjacency goal_key current_state current_g
                       (st\<lparr>open_heap := rest\<rparr>) of
                  Inl e \<Rightarrow> Some (Inl e)
                | Inr st' \<Rightarrow> astar_loop nodes adjacency goal_key st'))"

text \<open>
  The state of the loop after a number of iterations, none of which returned or raised
  (\<open>None\<close> when one did, or when the open list ran out).
\<close>

fun astar_after ::
  "nat \<Rightarrow> nodes \<Rightarrow> adjacency \<Rightarrow> PositionKey \<Rightarrow> astar_state \<Rightarrow> astar_state option" where
  "astar_after 0 nodes adjacency goal_key st = Some st"
| "astar_after (Suc n) nodes adjacency goal_key st =
     (case heappop (open_heap st) of
        None \<Rightarrow> None
      | Some ((f, current_g, c, current_state), rest) \<Rightarrow>
          if fst current_state = goal_key then None
          else (case expand nodes adjacency goal_key current_state current_g
                       (st\<lparr>open_heap := rest\<rparr>) of
                  Inl e \<Rightarrow> None
                | Inr st' \<Rightarrow> astar_after n nodes adjacency goal_key st'))"

definition astar_init :: "search_state \<Rightarrow> real \<Rightarrow> astar_state" where
  "astar_init start_state h =
     \<lparr>open_heap = heappush [] (h, 0, 0, start_state),
      came_from = Map.empty,
      g_score = [start_state \<mapsto> 0],
      counter = 1\<rparr>"

definition astar_actions ::
  "nodes \<Rightarrow> adjacency \<Rightarrow> PositionKey \<Rightarrow> int \<Rightarrow> PositionKey \<Rightarrow> (py_error + action list) option" where
  "astar_actions nodes adjacency start_key start_yaw goal_key =
     (if start_key = goal_key then Some (Inr [])
      else (case astar_heuristic nodes goal_key start_key of
              Inl e \<Rightarrow> Some (Inl e)
            | Inr h \<Rightarrow> astar_loop nodes adjacency goal_key (astar_init (start_key, start_yaw) h)))"

section \<open>JPS planner\<close>

definition movement_cost :: "nodes \<Rightarrow> PositionKey \<Rightarrow> PositionKey \<Rightarrow> py_error + real" where
  "movement_cost nodes a b =
     (case dict_get nodes a of
        Inl e \<Rightarrow> Inl e
      | Inr pa \<Rightarrow>
          (case dict_get nodes b of
             Inl e \<Rightarrow> Inl e
           | Inr pb \<Rightarrow> Inr ((\<bar>fst pa - fst pb\<bar> + \<bar>snd pa - snd pb\<bar>) / STEP_SIZE)))"

definition is_walkable :: "nodes \<Rightarrow> real \<Rightarrow> real \<Rightarrow> bool" where
  "is_walkable nodes x z = (make_key x z \<in> set (map fst nodes))"

definition forced_neighbor_exists :: "nodes \<Rightarrow> PositionKey \<Rightarrow> int \<times> int \<Rightarrow> py_error + bool" where
  "forced_neighbor_exists nodes key direction =
     (let dx = fst direction; dz = snd direction
      in case dict_get nodes key of
           Inl e \<Rightarrow> Inl e
         | Inr node \<Rightarrow>
             (let x = fst node; z = snd node
              in if dx \<noteq> 0
                 then (let up_blocked = \<not> is_walkable nodes x (z + STEP_SIZE);
                           down_blocked = \<not> is_walkable nodes x (z - STEP_SIZE)
                       in if up_blocked \<and> is_walkable nodes (x + of_int dx * STEP_SIZE) (z + STEP_SIZE)
                          then Inr True
                          else if down_blocked
                                  \<and> is_walkable nodes (x + of_int dx * STEP_SIZE) (z - STEP_SIZE)
                          then Inr True
                          else Inr False)
                 else (let left_blocked = \<not> is_walkable nodes (x + STEP_SIZE) z;
                           right_blocked = \<not> is_walkable nodes (x - STEP_SIZE) z
                       in if left_blocked \<and> is_walkable nodes (x + STEP_SIZE) (z + of_int dz * STEP_SIZE)
                          then Inr True
                          else if right_blocked
                                  \<and> is_walkable nodes (x - STEP_SIZE) (z + of_int dz * STEP_SIZE)
                          then Inr True
                          else Inr False)))"

text \<open>
  The recursive \<open>_jump\<close>. Its result is \<open>Inr None\<close> for Python's \<open>None\<close>, \<open>Inr (Some k)\<close> for
  a jump point and \<open>Inl e\<close> for an exception; the outer \<open>None\<close> stands for a recursion that
  never ends.
\<close>

partial_function (option) jump ::
  "nodes \<Rightarrow> PositionKey \<Rightarrow> int \<times> int \<Rightarrow> PositionKey \<Rightarrow> (py_error + PositionKey option) option" where
  "jump nodes current direction goal =
     (case dict_get nodes current of
        Inl e \<Rightarrow> Some (Inl e)
      | Inr node \<Rightarrow>
          (let next_x = fst node + of_int (fst direction) * STEP_SIZE;
               next_z = snd node + of_int (snd direction) * STEP_SIZE;
               next_key = make_key next_x next_z
           in if next_key \<notin> set (map fst nodes) then Some (Inr None)
              else if next_key = goal then Some (Inr (Some next_key))
              else (case forced_neighbor_exists nodes next_key direction of
                      Inl e \<Rightarrow> Some (Inl e)
                    | Inr forced \<Rightarrow>
                        if forced then Some (Inr (Some next_key))
                        else jump nodes next_key direction goal)))"

definition pruned_directions ::
  "nodes \<Rightarrow> PositionKey \<Rightarrow> PositionKey option \<Rightarrow> py_error + (int \<times> int) list" where
  "pruned_directions nodes current parent =
     (case dict_get nodes current of
        Inl e \<Rightarrow> Inl e
      | Inr node \<Rightarrow>
          (let x = fst node; z = snd node
           in case parent of
                None \<Rightarrow>
                  Inr (map (\<lambda>(yaw, (dx, dz)). (py_round (dx / STEP_SIZE), py_round (dz / STEP_SIZE)))
                         (filter (\<lambda>(yaw, (dx, dz)). make_key (x + dx) (z + dz) \<in> set (map fst nodes))
                            CARDINAL_DIRECTIONS))
              | Some parent_key \<Rightarrow>
                  (case dict_get nodes parent_key of
                     Inl e \<Rightarrow> Inl e
                   | Inr parent_node \<Rightarrow>
                       (let diff_x = x - fst parent_node;
                            diff_z = z - snd parent_node;
                            dir_x = (if 1 / 1000000 < \<bar>diff_x\<bar> then py_round (diff_x / STEP_SIZE) else 0);
                            dir_z = (if 1 / 1000000 < \<bar>diff_z\<bar> then py_round (diff_z / STEP_SIZE) else 0)
                        in if dir_x \<noteq> 0
                           then Inr ((if is_walkable nodes (x + of_int dir_x * STEP_SIZE) z
                                      then [(dir_x, 0)] else [])
                                   @ (if \<not> is_walkable nodes x (z + STEP_SIZE)
                                         \<and> is_walkable nodes (x + of_int dir_x * STEP_SIZE) (z + STEP_SIZE)
                                      then [(0, 1)] else [])
                                   @ (if \<not> is_walkable nodes x (z - STEP_SIZE)
                                         \<and> is_walkable nodes (x + of_int dir_x * STEP_SIZE) (z - STEP_SIZE)
                                      then [(0, - 1)] else []))
                           else if dir_z \<noteq> 0
                           then Inr ((if is_walkable nodes x (z + of_int dir_z * STEP_SIZE)
                                      then [(0, dir_z)] else [])
                                   @ (if \<not> is_walkable nodes (x + STEP_SIZE) z
                                         \<and> is_walkable nodes (x + STEP_SIZE) (z + of_int dir_z * STEP_SIZE)
                                      then [(1, 0)] else [])
                                   @ (if \<not> is_walkable nodes (x - STEP_SIZE) z
                                         \<and> is_walkable nodes (x - STEP_SIZE) (z + of_int dir_z * STEP_SIZE)
                                      then [(- 1, 0)] else []))
                           else Inr []))))"

text \<open>
  \<open>_reconstruct_path\<close>: the path is built from the goal backwards and reversed; \<open>parents[current]\<close>
  raises \<open>KeyError\<close> on a key without a parent. \<open>None\<close> stands for a loop that never ends.
\<close>

partial_function (option) reconstruct_path_from ::
  "(PositionKey \<rightharpoonup> PositionKey) \<Rightarrow> PositionKey \<Rightarrow> PositionKey \<Rightarrow> PositionKey list
     \<Rightarrow> (py_error + PositionKey list) option" where
  "reconstruct_path_from parents start current path =
     (if current \<noteq> start
      then (case parents current of
              None \<Rightarrow> Some (Inl KeyError)
            | Some prev \<Rightarrow> reconstruct_path_from parents start prev (path @ [prev]))
      else Some (Inr (rev path)))"

definition reconstruct_path ::
  "(PositionKey \<rightharpoonup> PositionKey) \<Rightarrow> PositionKey \<Rightarrow> PositionKey
     \<Rightarrow> (py_error + PositionKey list) option" where
  "reconstruct_path parents start goal = reconstruct_path_from parents start goal [goal]"

text \<open>
  \<open>DIR_TO_YAW\<close>, and \<open>_path_to_actions\<close>: the loop over consecutive waypoints carries the
  heading and the actions emitted so far.
\<close>

definition DIR_TO_YAW :: "((int \<times> int) \<times> int) list" where
  "DIR_TO_YAW = [((0, 1), 0), ((1, 0), 90), ((0, - 1), 180), ((- 1, 0), 270)]"

fun path_segments ::
  "nodes \<Rightarrow> (PositionKey \<times> PositionKey) list \<Rightarrow> int \<Rightarrow> action list \<Rightarrow> py_error + action list" where
  "path_segments nodes [] yaw actions = Inr actions"
| "path_segments nodes ((prev_key, next_key) # rest) yaw actions =
     (case dict_get nodes prev_key of
        Inl e \<Rightarrow> Inl e
      | Inr prev_node \<Rightarrow>
          (case dict_get nodes next_key of
             Inl e \<Rightarrow> Inl e
           | Inr next_node \<Rightarrow>
               (let dx = fst next_node - fst prev_node;
                    dz = snd next_node - snd prev_node
                in if 1 / 1000000 < \<bar>dx\<bar> \<and> 1 / 1000000 < \<bar>dz\<bar>
                   then Inl (ValueError ''Diagonal movement is not supported'')
                   else (let unit_dir = (if 1 / 1000000 < \<bar>dx\<bar>
                                         then (if 0 < dx then 1 else - 1, 0)
                                         else (0, if 0 < dz then 1 else - 1));
                             steps = (if 1 / 1000000 < \<bar>dx\<bar>
                                      then py_round (\<bar>dx\<bar> / STEP_SIZE)
                                      else py_round (\<bar>dz\<bar> / STEP_SIZE))
                         in case dict_get DIR_TO_YAW unit_dir of
                              Inl e \<Rightarrow> Inl e
                            | Inr target_yaw \<Rightarrow>
                                path_segments nodes rest target_yaw
                                  (actions @ rotation_actions yaw target_yaw
                                     @ replicate (nat steps) MoveAhead)))))"

definition path_to_actions :: "nodes \<Rightarrow> PositionKey list \<Rightarrow> int \<Rightarrow> py_error + action list" where
  "path_to_actions nodes path start_yaw =
     (if length path < 2 then Inr []
      else path_segments nodes (zip path (tl path)) start_yaw [])"

text \<open>
  The search loop of \<open>jps_actions\<close>. Costs are floats here (a jump spans several cells),
  kept as reals; the tolerance \<open>1e-9\<close> of the relaxation test is written out.
\<close>

type_synonym jps_entry = "real \<times> real \<times> nat \<times> PositionKey"

record jps_state =
  jps_heap :: "jps_entry list"
  parents :: "PositionKey \<rightharpoonup> PositionKey"
  jps_g_score :: "PositionKey \<rightharpoonup> real"
  closed :: "PositionKey set"
  jps_counter :: nat

definition jps_heuristic :: "nodes \<Rightarrow> PositionKey \<Rightarrow> PositionKey \<Rightarrow> py_error + real" where
  "jps_heuristic nodes goal_key key =
     (case dict_get nodes key of
        Inl e \<Rightarrow> Inl e
      | Inr pos \<Rightarrow>
          (case dict_get nodes goal_key of
             Inl e \<Rightarrow> Inl e
           | Inr goal \<Rightarrow> Inr ((\<bar>fst pos - fst goal\<bar> + \<bar>snd pos - snd goal\<bar>) / STEP_SIZE)))"

text \<open>The body of the loop over the pruned directions, for one direction.\<close>

definition jps_successor ::
  "nodes \<Rightarrow> PositionKey \<Rightarrow> PositionKey \<Rightarrow> real \<Rightarrow> int \<times> int \<Rightarrow> jps_state
     \<Rightarrow> (py_error + jps_state) option" where
  "jps_successor nodes goal_key current current_g direction st =
     (case jump nodes current direction goal_key of
        None \<Rightarrow> None
      | Some (Inl e) \<Rightarrow> Some (Inl e)
      | Some (Inr None) \<Rightarrow> Some (Inr st)
      | Some (Inr (Some jump_key)) \<Rightarrow>
          (case movement_cost nodes current jump_key of
             Inl e \<Rightarrow> Some (Inl e)
           | Inr cost \<Rightarrow>
               (let tentative_g = current_g + cost
                in if (case jps_g_score st jump_key of
                         None \<Rightarrow> False
                       | Some old \<Rightarrow> old \<le> tentative_g + 1 / 1000000000)
                   then Some (Inr st)
                   else (case jps_heuristic nodes goal_key jump_key of
                           Inl e \<Rightarrow> Some (Inl e)
                         | Inr h \<Rightarrow>
                             Some (Inr (st\<lparr>parents := (parents st)(jump_key \<mapsto> current),
                                            jps_g_score := (jps_g_score st)(jump_key \<mapsto> tentative_g),
                                            jps_heap := heappush (jps_heap st)
                                               (tentative_g + h, tentative_g, jps_counter st, jump_key),
                                            jps_counter := jps_counter st + 1\<rparr>))))))"

fun jps_successors ::
  "nodes \<Rightarrow> PositionKey \<Rightarrow> PositionKey \<Rightarrow> real \<Rightarrow> (int \<times> int) list \<Rightarrow> jps_state
     \<Rightarrow> (py_error + jps_state) option" where
  "jps_successors nodes goal_key current current_g [] st = Some (Inr st)"
| "jps_successors nodes goal_key current current_g (d # ds) st =
     (case jps_successor nodes goal_key current current_g d st of
        None \<Rightarrow> None
      | Some (Inl e) \<Rightarrow> Some (Inl e)
      | Some (Inr st') \<Rightarrow> jps_successors nodes goal_key current current_g ds st')"

partial_function (option) jps_loop ::
  "nodes \<Rightarrow> PositionKey \<Rightarrow> int \<Rightarrow> PositionKey \<Rightarrow> jps_state \<Rightarrow> (py_error + action list) option" where
  "jps_loop nodes start_key start_yaw goal_key st =
     (case heappop (jps_heap st) of
        None \<Rightarrow> Some (Inl (RuntimeError ''No path found to target using JPS''))
      | Some ((f, current_g, c, current), rest) \<Rightarrow>
          if current \<in> closed st
          then jps_loop nodes start_key start_yaw goal_key (st\<lparr>jps_heap := rest\<rparr>)
          else if current = goal_key
          then (case reconstruct_path (parents st) start_key goal_key of
                  None \<Rightarrow> None
                | Some (Inl e) \<Rightarrow> Some (Inl e)
                | Some (Inr path) \<Rightarrow> Some (path_to_actions nodes path start_yaw))
          else (case pruned_directions nodes current (parents st current) of
                  Inl e \<Rightarrow> Some (Inl e)
                | Inr directions \<Rightarrow>
                    (case jps_successors nodes goal_key current current_g directions
                            (st\<lparr>jps_heap := rest, closed := insert current (closed st)\<rparr>) of
                       None \<Rightarrow> None
                     | Some (Inl e) \<Rightarrow> Some (Inl e)
                     | Some (Inr st') \<Rightarrow> jps_loop nodes start_key start_yaw goal_key st')))"

definition jps_actions ::
  "nodes \<Rightarrow> PositionKey \<Rightarrow> int \<Rightarrow> PositionKey \<Rightarrow> (py_error + action list) option" where
  "jps_actions nodes start_key start_yaw goal_key =
     (if start_key = goal_key then Some (Inr [])
      else (case jps_heuristic nodes goal_key start_key of
              Inl e \<Rightarrow> Some (Inl e)
            | Inr h \<Rightarrow>
                jps_loop nodes start_key start_yaw goal_key
                  \<lparr>jps_heap = heappush [] (h, 0, 0, start_key),
                   parents = Map.empty,
                   jps_g_score = [start_key \<mapsto> 0],
                   closed = {},
                   jps_counter = 1\<rparr>))"

section \<open>Executor (eval\_llm\_astar.py)\<close>

text \<open>
  The observations of the stepped environment. A metadata dictionary is \<open>NoneValue\<close>
  (Python's \<open>None\<close>), \<open>EmptyDict\<close> or a dictionary with the fields the executor reads; the
  first two are the falsy ones. \<open>cameraHorizon\<close> is read with a default and may be missing.
  A candidate pose carries a position and the desired heading; a candidate may be \<open>None\<close>.
\<close>

record agent_meta =
  agent_position :: position
  agent_rotation_y :: py_float
  camera_horizon :: "real option"

record pose =
  pose_position :: position
  pose_rotation :: "py_float option"

datatype action_return = Positions "position list" | Poses "pose option list" | NoReturn

record metadata =
  meta_agent :: agent_meta
  meta_action_return :: action_return
  meta_objects :: "(string \<times> bool) list"
  meta_error_message :: string

datatype 'a py_dict = NoneValue | EmptyDict | Dict 'a

record event =
  ev_metadata :: "metadata py_dict"

text \<open>
  What the executor sends: the two queries through \<open>env.step\<close>, and primitives through
  \<open>execute_action\<close> of the base class \<open>EvalLLM\<close>. Neither is part of these sources, so both
  are parameters, functions of an environment state: \<open>env_step\<close> returns the event,
  \<open>super_execute_action\<close> the triple \<open>(success, event, error)\<close>, and \<open>env_last_event\<close> reads
  \<open>env.last_event\<close>. The model keeps a log of everything sent.
\<close>

datatype primitive = Nav action | LookUp | LookDown

datatype request = GetReachablePositions | GetInteractablePoses "string option" action_return

datatype call = StepCall request | ExecuteCall primitive

record 'e env_ops =
  env_step :: "'e \<Rightarrow> request \<Rightarrow> event \<times> 'e"
  env_last_event :: "'e \<Rightarrow> event option"
  super_execute_action :: "'e \<Rightarrow> primitive \<Rightarrow> (bool \<times> event option \<times> string) \<times> 'e"

type_synonym 'e world = "'e \<times> call list"

definition do_step :: "'e env_ops \<Rightarrow> request \<Rightarrow> 'e world \<Rightarrow> event \<times> 'e world" where
  "do_step ops req w =
     (let (ev, e') = env_step ops (fst w) req in (ev, (e', snd w @ [StepCall req])))"

definition do_execute ::
  "'e env_ops \<Rightarrow> primitive \<Rightarrow> 'e world \<Rightarrow> (bool \<times> event option \<times> string) \<times> 'e world" where
  "do_execute ops prim w =
     (let (r, e') = super_execute_action ops (fst w) prim in (r, (e', snd w @ [ExecuteCall prim])))"

definition last_event :: "'e env_ops \<Rightarrow> 'e world \<Rightarrow> event option" where
  "last_event ops w = env_last_event ops (fst w)"

definition is_object_visible :: "metadata py_dict \<Rightarrow> string \<Rightarrow> bool" where
  "is_object_visible md target_object_id =
     (case md of
        Dict m \<Rightarrow>
          (case find (\<lambda>obj. fst obj = target_object_id) (meta_objects m) of
             None \<Rightarrow> False
           | Some obj \<Rightarrow> snd obj)
      | _ \<Rightarrow> False)"

text \<open>
  The result of a call: a returned value or a raised exception; \<open>OutOfFuel\<close> is a loop of
  the visibility scan cut off by the bound the model puts on it (the source has none).
\<close>

datatype 'a outcome = Returned 'a | Raised py_error | OutOfFuel

subsection \<open>Visibility recovery scan\<close>

text \<open>
  \<open>_adjust_horizon_for_visibility\<close>. Each iteration of either loop is recorded: the
  primitive sent, the value of \<open>current_horizon\<close> when it was sent, and the response. The
  two \<open>while\<close> loops get a bound \<open>fuel\<close> on the number of iterations still allowed (the
  second loop takes over what the first has left), and return the outcome, the environment
  and the iterations they made, in order.
\<close>

record scan_step =
  sent :: primitive
  horizon_before :: real
  succeeded :: bool
  response :: "event option"

definition min_horizon :: real where
  "min_horizon = - 30"

definition max_horizon :: real where
  "max_horizon = 90"

definition horizon_of :: "metadata py_dict \<Rightarrow> real \<Rightarrow> real" where
  "horizon_of md fallback =
     (case md of
        Dict m \<Rightarrow> (case camera_horizon (meta_agent m) of None \<Rightarrow> fallback | Some h \<Rightarrow> h)
      | _ \<Rightarrow> fallback)"

definition held_object_message :: string where
  "held_object_message =
     ''Horizon adjustment exceeded limits without finding target object. This happened because an object being held is likely blocking the agent's view''"

fun look_down_loop ::
  "nat \<Rightarrow> 'e env_ops \<Rightarrow> string \<Rightarrow> real \<Rightarrow> 'e world
     \<Rightarrow> bool outcome \<times> 'e world \<times> scan_step list" where
  "look_down_loop 0 ops target current_horizon w =
     (if current_horizon < max_horizon - 1 / 1000 then (OutOfFuel, w, [])
      else (Raised (RuntimeError held_object_message), w, []))"
| "look_down_loop (Suc fuel) ops target current_horizon w =
     (if current_horizon < max_horizon - 1 / 1000
      then (let ((lookdown_success, latest_event, err), w') = do_execute ops LookDown w;
                s = \<lparr>sent = LookDown, horizon_before = current_horizon,
                      succeeded = lookdown_success, response = latest_event\<rparr>
            in if \<not> lookdown_success
               then (Raised (RuntimeError ''LookDown action failed during horizon adjustment''), w', [s])
               else (case latest_event of
                       None \<Rightarrow> (Raised AttributeError, w', [s])
                     | Some ev \<Rightarrow>
                         if is_object_visible (ev_metadata ev) target
                         then (Returned True, w', [s])
                         else (let (out, w'', rest) =
                                     look_down_loop fuel ops target
                                       (horizon_of (ev_metadata ev) current_horizon) w'
                               in (out, w'', s # rest))))
      else (Raised (RuntimeError held_object_message), w, []))"

fun look_up_loop ::
  "nat \<Rightarrow> 'e env_ops \<Rightarrow> string \<Rightarrow> real \<Rightarrow> 'e world
     \<Rightarrow> bool outcome \<times> 'e world \<times> scan_step list" where
  "look_up_loop 0 ops target current_horizon w =
     (if min_horizon + 1 / 1000 < current_horizon then (OutOfFuel, w, [])
      else look_down_loop 0 ops target current_horizon w)"
| "look_up_loop (Suc fuel) ops target current_horizon w =
     (if min_horizon + 1 / 1000 < current_horizon
      then (let ((lookup_success, latest_event, err), w') = do_execute ops LookUp w;
                s = \<lparr>sent = LookUp, horizon_before = current_horizon,
                      succeeded = lookup_success, response = latest_event\<rparr>
            in if \<not> lookup_success
               then (Raised (RuntimeError ''LookUp action failed during horizon adjustment''), w', [s])
               else (case latest_event of
                       None \<Rightarrow> (Raised AttributeError, w', [s])
                     | Some ev \<Rightarrow>
                         if is_object_visible (ev_metadata ev) target
                         then (Returned True, w', [s])
                         else (let (out, w'', rest) =
                                     look_up_loop fuel ops target
                                       (horizon_of (ev_metadata ev) current_horizon) w'
                               in (out, w'', s # rest))))
      else look_down_loop (Suc fuel) ops target current_horizon w)"

definition adjust_horizon_for_visibility ::
  "nat \<Rightarrow> 'e env_ops \<Rightarrow> string \<Rightarrow> 'e world \<Rightarrow> bool outcome \<times> 'e world \<times> scan_step list" where
  "adjust_horizon_for_visibility fuel ops target_object_id w =
     (case last_event ops w of
        None \<Rightarrow> (Returned False, w, [])
      | Some ev \<Rightarrow>
          (case ev_metadata ev of
             Dict m \<Rightarrow>
               if is_object_visible (ev_metadata ev) target_object_id then (Returned True, w, [])
               else look_up_loop fuel ops target_object_id (horizon_of (ev_metadata ev) 0) w
           | _ \<Rightarrow> (Returned False, w, [])))"

text \<open>
  Reading the record of a scan: an iteration saw the target when the primitive succeeded
  and the target is visible in its event; \<open>horizon_after\<close> is the value \<open>current_horizon\<close>
  takes from the event; and a \<open>LookDown\<close> iteration ends at the upper bound without the
  target when it succeeded, the target is not visible and the new horizon is within the
  tolerance of \<open>max_horizon\<close>.
\<close>

definition saw_target :: "string \<Rightarrow> scan_step \<Rightarrow> bool" where
  "saw_target target s =
     (succeeded s \<and> (case response s of None \<Rightarrow> False
                       | Some ev \<Rightarrow> is_object_visible (ev_metadata ev) target))"

definition horizon_after :: "scan_step \<Rightarrow> real" where
  "horizon_after s =
     (case response s of None \<Rightarrow> horizon_before s
      | Some ev \<Rightarrow> horizon_of (ev_metadata ev) (horizon_before s))"

definition unseen_at_upper_bound :: "string \<Rightarrow> scan_step \<Rightarrow> bool" where
  "unseen_at_upper_bound target s =
     (sent s = LookDown \<and> succeeded s \<and> response s \<noteq> None \<and> \<not> saw_target target s
      \<and> max_horizon - 1 / 1000 \<le> horizon_after s)"

subsection \<open>One navigation request\<close>

text \<open>
  The \<open>try\<close> block of \<open>_execute_goto\<close>: the JPS planner first, and the A* planner on the
  adjacency built from the same table when JPS raises a \<open>RuntimeError\<close>; any other exception
  of JPS is not caught. \<open>None\<close> stands for a planner that never returns.
\<close>

definition plan_route ::
  "nodes \<Rightarrow> PositionKey \<Rightarrow> int \<Rightarrow> PositionKey \<Rightarrow> (py_error + action list) option" where
  "plan_route nodes start_key start_yaw target_key =
     (case jps_actions nodes start_key start_yaw target_key of
        None \<Rightarrow> None
      | Some (Inr action_names) \<Rightarrow> Some (Inr action_names)
      | Some (Inl (RuntimeError msg)) \<Rightarrow>
          (let adjacency = build_adjacency nodes
           in astar_actions nodes adjacency start_key start_yaw target_key)
      | Some (Inl e) \<Rightarrow> Some (Inl e))"

text \<open>
  \<open>_dispatch_nav_action\<close> on \<open>{'action': name}\<close> with a name of the planner: the name is
  not empty and there is no object id, so the primitive goes to \<open>execute_action\<close> as it is.
\<close>

definition dispatch_nav_action ::
  "'e env_ops \<Rightarrow> action \<Rightarrow> 'e world \<Rightarrow> (bool \<times> event option \<times> string) \<times> 'e world" where
  "dispatch_nav_action ops action_name w = do_execute ops (Nav action_name) w"

text \<open>
  The loop over the plan stops at the first primitive that fails; the loop over the turn
  actions returns at the first one that fails. Both leave the triple of the last primitive
  executed, or the one they started with.
\<close>

fun run_plan ::
  "'e env_ops \<Rightarrow> action list \<Rightarrow> bool \<times> event option \<times> string \<Rightarrow> 'e world
     \<Rightarrow> (bool \<times> event option \<times> string) \<times> 'e world" where
  "run_plan ops [] r w = (r, w)"
| "run_plan ops (action_name # rest) r w =
     (let (r', w') = dispatch_nav_action ops action_name w
      in if \<not> fst r' then (r', w') else run_plan ops rest r' w')"

fun run_turns ::
  "'e env_ops \<Rightarrow> action list \<Rightarrow> bool \<times> event option \<times> string \<Rightarrow> 'e world
     \<Rightarrow> (bool \<times> event option \<times> string) \<times> 'e world" where
  "run_turns ops [] r w = (r, w)"
| "run_turns ops (turn_name # rest) r w =
     (let (r', w') = do_execute ops (Nav turn_name) w
      in if \<not> fst r' then (r', w') else run_turns ops rest r' w')"

definition truthy :: "string option \<Rightarrow> bool" where
  "truthy s = (case s of None \<Rightarrow> False | Some t \<Rightarrow> t \<noteq> [])"

text \<open>The last part of \<open>_execute_goto\<close>: the visibility check, the scan, and the result.\<close>

definition confirm_visible ::
  "nat \<Rightarrow> 'e env_ops \<Rightarrow> string option \<Rightarrow> 'e world
     \<Rightarrow> (bool \<times> event option \<times> string) outcome \<times> 'e world" where
  "confirm_visible fuel ops target_object_id w =
     (let event = last_event ops w
      in case (event, target_object_id) of
           (Some ev, Some target) \<Rightarrow>
             if truthy target_object_id
             then (if is_object_visible (ev_metadata ev) target
                   then (Returned (True, event, []), w)
                   else (case adjust_horizon_for_visibility fuel ops target w of
                           (Returned visible, w', tr) \<Rightarrow>
                             (let event' = last_event ops w'
                              in if visible then (Returned (True, event', []), w')
                                 else (case event' of
                                         None \<Rightarrow> (Returned (False, event', []), w')
                                       | Some ev' \<Rightarrow>
                                           (case ev_metadata ev' of
                                              NoneValue \<Rightarrow> (Raised AttributeError, w')
                                            | EmptyDict \<Rightarrow> (Returned (False, event', []), w')
                                            | Dict m \<Rightarrow>
                                                (Returned (False, event', meta_error_message m), w'))))
                         | (Raised e, w', tr) \<Rightarrow> (Raised e, w')
                         | (OutOfFuel, w', tr) \<Rightarrow> (OutOfFuel, w')))
             else (Returned (True, event, []), w)
         | _ \<Rightarrow> (Returned (True, event, []), w))"

text \<open>Executing the plan, aligning the heading, confirming visibility.\<close>

definition drive ::
  "nat \<Rightarrow> 'e env_ops \<Rightarrow> string option \<Rightarrow> pose \<Rightarrow> action list \<Rightarrow> 'e world
     \<Rightarrow> (bool \<times> event option \<times> string) outcome \<times> 'e world" where
  "drive fuel ops target_object_id target_position action_names w =
     (let (r, w3) = run_plan ops action_names (True, last_event ops w, []) w
      in if \<not> fst r then (Returned r, w3)
         else (case last_event ops w3 of
                 None \<Rightarrow> (Raised AttributeError, w3)
               | Some ev \<Rightarrow>
                   (case ev_metadata ev of
                      NoneValue \<Rightarrow> (Raised TypeError, w3)
                    | EmptyDict \<Rightarrow> (Raised KeyError, w3)
                    | Dict m \<Rightarrow>
                        (let current_yaw = agent_rotation_y (meta_agent m);
                             desired_yaw = pose_rotation target_position
                         in case turn_actions current_yaw desired_yaw of
                              Inl e \<Rightarrow> (Raised e, w3)
                            | Inr turn_names \<Rightarrow>
                                (let (r', w4) = run_turns ops turn_names r w3
                                 in if \<not> fst r' then (Returned r', w4)
                                    else confirm_visible fuel ops target_object_id w4)))))"

definition interactable_poses :: "metadata py_dict \<Rightarrow> py_error + pose option list" where
  "interactable_poses md =
     (case md of
        NoneValue \<Rightarrow> Inl TypeError
      | EmptyDict \<Rightarrow> Inl KeyError
      | Dict m \<Rightarrow>
          (case meta_action_return m of
             Poses ps \<Rightarrow> Inr ps
           | NoReturn \<Rightarrow> Inr []
           | Positions ps \<Rightarrow> Inl TypeError))"

text \<open>
  \<open>_execute_goto\<close>. \<open>fuel\<close> bounds the loops of the visibility scan; \<open>None\<close> stands for a
  planner that never returns. A truthy \<open>actionReturn\<close> of the wrong kind is a \<open>TypeError\<close>
  in this model.
\<close>

definition execute_goto ::
  "nat \<Rightarrow> 'e env_ops \<Rightarrow> string option \<Rightarrow> 'e world
     \<Rightarrow> ((bool \<times> event option \<times> string) outcome \<times> 'e world) option" where
  "execute_goto fuel ops target_object_id w =
     (let (reachable, w1) = do_step ops GetReachablePositions w
      in case ev_metadata reachable of
           Dict reach_meta \<Rightarrow>
             (let agent = meta_agent reach_meta;
                  reachable_positions = meta_action_return reach_meta;
                  (event, w2) = do_step ops (GetInteractablePoses target_object_id reachable_positions) w1
              in case interactable_poses (ev_metadata event) of
                   Inl e \<Rightarrow> Some (Raised e, w2)
                 | Inr [] \<Rightarrow>
                     Some (Raised (RuntimeError ''No interactable poses returned for target object''), w2)
                 | Inr (None # others) \<Rightarrow>
                     Some (Returned (False, last_event ops w2, ''GotoLocation missing valid target''), w2)
                 | Inr (Some target_position # others) \<Rightarrow>
                     (case reachable_positions of
                        Positions ps \<Rightarrow>
                          (let nodes = build_node_lookup ps
                           in case nearest_key nodes (agent_position agent) of
                                Inl e \<Rightarrow> Some (Raised e, w2)
                              | Inr start_key \<Rightarrow>
                                  (case nearest_key nodes (pose_position target_position) of
                                     Inl e \<Rightarrow> Some (Raised e, w2)
                                   | Inr target_key \<Rightarrow>
                                       (case normalize_yaw (agent_rotation_y agent) of
                                          Inl e \<Rightarrow> Some (Raised e, w2)
                                        | Inr start_yaw \<Rightarrow>
                                            (case plan_route nodes start_key start_yaw target_key of
                                               None \<Rightarrow> None
                                             | Some (Inl e) \<Rightarrow> Some (Raised e, w2)
                                             | Some (Inr action_names) \<Rightarrow>
                                                 Some (drive fuel ops target_object_id target_position
                                                         action_names w2)))))
                      | _ \<Rightarrow> Some (Raised TypeError, w2)))
         | _ \<Rightarrow> Some (Returned (False, last_event ops w1, ''No reachable positions found''), w1))"

section \<open>Plans on the grid\<close>

text \<open>
  A node table as \<open>build_node_lookup\<close> makes it from positions whose coordinates are whole
  hundredths (every position of the environment's grid is): the keys are distinct and
  each key stands for the position stored under it. \<open>exact\<close> is the test on a position.
\<close>

definition key_position :: "PositionKey \<Rightarrow> position" where
  "key_position k = (of_int (fst k) / 100, of_int (snd k) / 100)"

definition exact :: "position \<Rightarrow> bool" where
  "exact p = (key_position (make_key (fst p) (snd p)) = p)"

text \<open>
  What a plan does, from the operators of the planner: a rotation changes the heading by a
  quarter turn; \<open>MoveAhead\<close> goes to the cell one step ahead when that cell is listed in the
  adjacency of the current cell, and cannot be executed otherwise. \<open>adjacent\<close> is the
  relation of the adjacency table.
\<close>

definition step_action :: "nodes \<Rightarrow> adjacency \<Rightarrow> search_state \<Rightarrow> action \<Rightarrow> search_state option" where
  "step_action nodes adjacency s a =
     (case a of
        RotateLeft \<Rightarrow> Some (fst s, (snd s - 90) mod 360)
      | RotateRight \<Rightarrow> Some (fst s, (snd s + 90) mod 360)
      | MoveAhead \<Rightarrow>
          (case forward_key nodes (fst s) (snd s) of
             Inl e \<Rightarrow> None
           | Inr neighbor_key \<Rightarrow>
               (case dict_get adjacency (fst s) of
                  Inl e \<Rightarrow> None
                | Inr neighbors \<Rightarrow>
                    if neighbor_key \<in> set neighbors then Some (neighbor_key, snd s) else None)))"

fun run_actions :: "nodes \<Rightarrow> adjacency \<Rightarrow> search_state \<Rightarrow> action list \<Rightarrow> search_state option" where
  "run_actions nodes adjacency s [] = Some s"
| "run_actions nodes adjacency s (a # plan) =
     (case step_action nodes adjacency s a of
        None \<Rightarrow> None
      | Some s' \<Rightarrow> run_actions nodes adjacency s' plan)"

definition adjacent :: "adjacency \<Rightarrow> (PositionKey \<times> PositionKey) set" where
  "adjacent adjacency = {(a, b). \<exists>neighbors. map_of adjacency a = Some neighbors \<and> b \<in> set neighbors}"

text \<open>
  In hundredths, the cell ahead and the straight-line distance to the goal in steps.
\<close>

definition ahead :: "PositionKey \<Rightarrow> int \<Rightarrow> PositionKey" where
  "ahead k yaw =
     (if yaw = 0 then (fst k, snd k + 25)
      else if yaw = 90 then (fst k + 25, snd k)
      else if yaw = 180 then (fst k, snd k - 25)
      else (fst k - 25, snd k))"

definition hdist :: "PositionKey \<Rightarrow> PositionKey \<Rightarrow> real" where
  "hdist goal k = sqrt ((of_int (fst k) - of_int (fst goal))\<^sup>2 + (of_int (snd k) - of_int (snd goal))\<^sup>2) / 25"

definition node_table :: "nodes \<Rightarrow> bool" where
  "node_table nodes = (distinct (map fst nodes) \<and> (\<forall>(k, p) \<in> set nodes. p = key_position k))"

definition node_keys :: "nodes \<Rightarrow> PositionKey set" where
  "node_keys nodes = set (map fst nodes)"

definition valid_state :: "nodes \<Rightarrow> search_state \<Rightarrow> bool" where
  "valid_state nodes s = (fst s \<in> node_keys nodes \<and> cardinal (snd s))"

section \<open>Invariants of the A* search\<close>

text \<open>
  The relaxation without its exception paths, and the facts that hold each time the loop
  tests its condition: the start state has cost 0 and no predecessor; every recorded state
  is a key of the table with a cardinal heading; a predecessor record is a step of the plan
  semantics from a state of smaller cost; an entry of the open list carries \<open>f = g + h\<close> and
  a cost no smaller than the recorded one; and a recorded state either has an entry with
  its recorded cost in the open list or is not at the goal and has all its successors
  recorded with at most one more. During an iteration the state that was popped is exempt
  from the last.
\<close>

definition improves :: "nat \<Rightarrow> search_state \<Rightarrow> astar_state \<Rightarrow> bool" where
  "improves g new st = (case g_score st new of None \<Rightarrow> True | Some old \<Rightarrow> g + 1 < old)"

definition pushed ::
  "PositionKey \<Rightarrow> search_state \<Rightarrow> nat \<Rightarrow> search_state \<Rightarrow> action \<Rightarrow> astar_state \<Rightarrow> astar_state" where
  "pushed goal cur g new a st =
     st\<lparr>g_score := (g_score st)(new \<mapsto> g + 1),
        came_from := (came_from st)(new \<mapsto> (cur, a)),
        open_heap := open_heap st @ [(real (g + 1) + hdist goal (fst new), g + 1, counter st, new)],
        counter := counter st + 1\<rparr>"

definition relaxed ::
  "PositionKey \<Rightarrow> search_state \<Rightarrow> nat \<Rightarrow> search_state \<Rightarrow> action \<Rightarrow> astar_state \<Rightarrow> astar_state" where
  "relaxed goal cur g new a st = (if improves g new st then pushed goal cur g new a st else st)"

definition settled :: "nodes \<Rightarrow> PositionKey \<Rightarrow> astar_state \<Rightarrow> search_state \<Rightarrow> nat \<Rightarrow> bool" where
  "settled nodes goal st s g =
     ((\<exists>f c. (f, g, c, s) \<in> set (open_heap st))
      \<or> (fst s \<noteq> goal
          \<and> (\<forall>a s'. step_action nodes (build_adjacency nodes) s a = Some s'
                \<longrightarrow> (\<exists>g'. g_score st s' = Some g' \<and> g' \<le> g + 1))))"

definition inv_start :: "search_state \<Rightarrow> astar_state \<Rightarrow> bool" where
  "inv_start start st = (g_score st start = Some 0 \<and> came_from st start = None)"

definition inv_valid :: "nodes \<Rightarrow> astar_state \<Rightarrow> bool" where
  "inv_valid nodes st = (\<forall>s g. g_score st s = Some g \<longrightarrow> valid_state nodes s)"

definition inv_parent :: "nodes \<Rightarrow> search_state \<Rightarrow> astar_state \<Rightarrow> bool" where
  "inv_parent nodes start st =
     ((\<forall>s p a. came_from st s = Some (p, a)
         \<longrightarrow> (\<exists>g gp. g_score st s = Some g \<and> g_score st p = Some gp \<and> gp < g
                \<and> step_action nodes (build_adjacency nodes) p a = Some s))
      \<and> (\<forall>s g. g_score st s = Some g \<longrightarrow> came_from st s = None \<longrightarrow> s = start))"

definition inv_heap :: "PositionKey \<Rightarrow> astar_state \<Rightarrow> bool" where
  "inv_heap goal st =
     (\<forall>f g c s. (f, g, c, s) \<in> set (open_heap st)
        \<longrightarrow> (\<exists>g'. g_score st s = Some g' \<and> g' \<le> g) \<and> f = real g + hdist goal (fst s))"

definition inv_settled ::
  "nodes \<Rightarrow> PositionKey \<Rightarrow> (search_state \<times> nat) set \<Rightarrow> astar_state \<Rightarrow> bool" where
  "inv_settled nodes goal X st =
     (\<forall>s g. g_score st s = Some g \<longrightarrow> settled nodes goal st s g \<or> (s, g) \<in> X)"

definition search_inv ::
  "nodes \<Rightarrow> PositionKey \<Rightarrow> search_state \<Rightarrow> (search_state \<times> nat) set \<Rightarrow> astar_state \<Rightarrow> bool" where
  "search_inv nodes goal start X st =
     (inv_start start st \<and> inv_valid nodes st \<and> inv_parent nodes start st \<and> inv_heap goal st
      \<and> inv_settled nodes goal X st)"

definition lowers :: "astar_state \<Rightarrow> astar_state \<Rightarrow> bool" where
  "lowers st st' = (\<forall>t gt. g_score st t = Some gt \<longrightarrow> (\<exists>gt'. g_score st' t = Some gt' \<and> gt' \<le> gt))"

text \<open>
  The loop ends: each iteration records a new state, or lowers a recorded cost, or only
  shortens the open list.
\<close>

definition state_space :: "nodes \<Rightarrow> search_state set" where
  "state_space nodes = node_keys nodes \<times> {0, 90, 180, 270}"

definition unseen :: "nodes \<Rightarrow> astar_state \<Rightarrow> nat" where
  "unseen nodes st = card {s \<in> state_space nodes. g_score st s = None}"

definition cost_sum :: "nodes \<Rightarrow> astar_state \<Rightarrow> nat" where
  "cost_sum nodes st = (\<Sum>s \<in> state_space nodes. case g_score st s of None \<Rightarrow> 0 | Some g \<Rightarrow> g)"

definition progress :: "nodes \<Rightarrow> astar_state \<Rightarrow> astar_state \<Rightarrow> bool" where
  "progress nodes st st' =
     (st' = st \<or> ((unseen nodes st', cost_sum nodes st'), (unseen nodes st, cost_sum nodes st))
                    \<in> less_than <*lex*> less_than)"

definition move_relaxed ::
  "nodes \<Rightarrow> PositionKey \<Rightarrow> search_state \<Rightarrow> nat \<Rightarrow> astar_state \<Rightarrow> astar_state" where
  "move_relaxed nodes goal s g st =
     (case step_action nodes (build_adjacency nodes) s MoveAhead of
        None \<Rightarrow> st
      | Some new \<Rightarrow> relaxed goal s g new MoveAhead st)"

definition expanded :: "nodes \<Rightarrow> PositionKey \<Rightarrow> search_state \<Rightarrow> nat \<Rightarrow> astar_state \<Rightarrow> astar_state" where
  "expanded nodes goal s g st =
     move_relaxed nodes goal s g
       (relaxed goal s g (fst s, (snd s + 90) mod 360) RotateRight
          (relaxed goal s g (fst s, (snd s - 90) mod 360) RotateLeft st))"

definition search_measure :: "nodes \<Rightarrow> astar_state \<Rightarrow> nat \<times> nat \<times> nat" where
  "search_measure nodes st = (unseen nodes st, cost_sum nodes st, length (open_heap st))"

text \<open>
  The shape of the open list, on any table: every entry is \<open>(g + h, g, c, state)\<close> with \<open>h\<close>
  the heuristic of the state's key and \<open>c\<close> a value the counter has already given, and no
  two entries have the same \<open>c\<close>.
\<close>

definition inv_entries :: "nodes \<Rightarrow> PositionKey \<Rightarrow> astar_state \<Rightarrow> bool" where
  "inv_entries nodes goal_key st =
     ((\<forall>(f, g, c, s) \<in> set (open_heap st).
          astar_heuristic nodes goal_key (fst s) = Inr (f - real g) \<and> c < counter st)
      \<and> distinct (map (\<lambda>(f, g, c, s). c) (open_heap st)))"

section \<open>Scripted environments\<close>

text \<open>
  Small environments on which the executor is evaluated: one that answers the two queries
  with fixed metadata and rejects every primitive, and a reachable-position snapshot of two
  cells a metre apart (so not adjacent), the agent standing on the first.
\<close>

definition script_ops :: "metadata py_dict \<Rightarrow> metadata py_dict \<Rightarrow> unit env_ops" where
  "script_ops reach poses =
     \<lparr>env_step = (\<lambda>e req. case req of
                     GetReachablePositions \<Rightarrow> (\<lparr>ev_metadata = reach\<rparr>, e)
                   | GetInteractablePoses t r \<Rightarrow> (\<lparr>ev_metadata = poses\<rparr>, e)),
      env_last_event = (\<lambda>e. None),
      super_execute_action = (\<lambda>e p. ((False, None, ''rejected''), e))\<rparr>"

definition two_islands :: metadata where
  "two_islands =
     \<lparr>meta_agent = \<lparr>agent_position = (0, 0), agent_rotation_y = Finite 0, camera_horizon = Some 0\<rparr>,
      meta_action_return = Positions [(0, 0), (1, 0)],
      meta_objects = [],
      meta_error_message = []\<rparr>"

definition candidates :: "pose option list \<Rightarrow> metadata" where
  "candidates ps = two_islands\<lparr>meta_action_return := Poses ps\<rparr>"

text \<open>
  A camera that tilts by ten degrees per \<open>LookUp\<close> or \<open>LookDown\<close>: the state is the tilt,
  and the target \<open>Mug\<close> is visible at one tilt only.
\<close>

definition tilt_event :: "real \<Rightarrow> real \<Rightarrow> event" where
  "tilt_event visible_at tilt =
     \<lparr>ev_metadata = Dict
        \<lparr>meta_agent = \<lparr>agent_position = (0, 0), agent_rotation_y = Finite 0, camera_horizon = Some tilt\<rparr>,
         meta_action_return = NoReturn,
         meta_objects = [(''Mug'', tilt = visible_at)],
         meta_error_message = []\<rparr>\<rparr>"

definition tilt_ops :: "real \<Rightarrow> real env_ops" where
  "tilt_ops visible_at =
     \<lparr>env_step = (\<lambda>e req. (\<lparr>ev_metadata = EmptyDict\<rparr>, e)),
      env_last_event = (\<lambda>e. Some (tilt_event visible_at e)),
      super_execute_action =
        (\<lambda>e p. let e' = (case p of LookUp \<Rightarrow> e - 10 | LookDown \<Rightarrow> e + 10 | Nav a \<Rightarrow> e)
                in ((True, Some (tilt_event visible_at e'), []), e'))\<rparr>"

text \<open>Five reachable cells in the shape of a C.\<close>

definition five_cells :: "position list" where
  "five_cells = [(0, 0), (0, 25 / 100), (0, 50 / 100), (25 / 100, 0), (25 / 100, 50 / 100)]"

text \<open>
  A corridor of three cells, a gap, and the goal cell behind the gap, with a way round
  below and one cell above the gap; and an open square of four cells. \<open>move_count\<close>
  counts the \<open>MoveAhead\<close> actions of a plan.
\<close>

definition walled_cells :: "position list" where
  "walled_cells = [(0, 0), (25 / 100, 0), (50 / 100, 0), (1, 0), (75 / 100, 25 / 100),
     (25 / 100, - (25 / 100)), (50 / 100, - (25 / 100)), (75 / 100, - (25 / 100)), (1, - (25 / 100))]"

definition square_cells :: "position list" where
  "square_cells = [(0, 0), (25 / 100, 0), (0, 25 / 100), (25 / 100, 25 / 100)]"

definition move_count :: "action list \<Rightarrow> nat" where
  "move_count plan = length (filter (\<lambda>a. a = MoveAhead) plan)"

section \<open>Properties of float rounding\<close>

lemma binade_bounds:
  assumes "x \<noteq> 0"
  shows "2 powi binade x \<le> \<bar>x\<bar> \<and> \<bar>x\<bar> < 2 powi (binade x + 1)"
proof (cases "1 \<le> \<bar>x\<bar>")
  case True
  define n where "n = \<lfloor>\<bar>x\<bar>\<rfloor>"
  have n: "0 < n" using True by (simp add: n_def)
  have b: "binade x = bitlen n - 1" using True by (simp add: binade_def n_def)
  have pos: "0 < bitlen n" using n bitlen_nonneg [of n] bitlen_eq_zero_iff [of n] by linarith
  from bitlen_bounds [OF n] have lo: "2 ^ nat (bitlen n - 1) \<le> n" and hi: "n < 2 ^ nat (bitlen n)"
    by simp_all
  have "(2 :: real) powi (bitlen n - 1) = 2 ^ nat (bitlen n - 1)"
    using pos by (simp add: power_int_def)
  also have "\<dots> = of_int (2 ^ nat (bitlen n - 1))" by simp
  also have "\<dots> \<le> of_int n" using lo by (simp only: of_int_le_iff)
  also have "\<dots> \<le> \<bar>x\<bar>" by (simp add: n_def)
  finally have 1: "2 powi binade x \<le> \<bar>x\<bar>" by (simp add: b)
  have "n + 1 \<le> 2 ^ nat (bitlen n)" using hi by simp
  then have "(of_int (n + 1) :: real) \<le> of_int (2 ^ nat (bitlen n))" by (simp only: of_int_le_iff)
  moreover have "\<bar>x\<bar> < of_int (n + 1)" by (simp add: n_def)
  ultimately have "\<bar>x\<bar> < 2 ^ nat (bitlen n)" by simp
  also have "(2 :: real) ^ nat (bitlen n) = 2 powi (bitlen n)"
    using pos by (simp add: power_int_def)
  finally have 2: "\<bar>x\<bar> < 2 powi (binade x + 1)" by (simp add: b)
  show ?thesis using 1 2 by simp
next
  case False
  define y where "y = 1 / \<bar>x\<bar>"
  define m where "m = \<lceil>y\<rceil> - 1"
  have xp: "0 < \<bar>x\<bar>" using assms by simp
  have y1: "1 < y" using False xp by (simp add: y_def)
  have m: "0 < m" using y1 unfolding m_def by linarith
  have my: "of_int m < y" "y \<le> of_int m + 1" unfolding m_def by linarith+
  have b: "binade x = - bitlen m" using False by (simp add: binade_def m_def y_def)
  have pos: "0 < bitlen m" using m bitlen_nonneg [of m] bitlen_eq_zero_iff [of m] by linarith
  from bitlen_bounds [OF m] have lo: "2 ^ nat (bitlen m - 1) \<le> m" and hi: "m < 2 ^ nat (bitlen m)"
    by simp_all
  have "m + 1 \<le> 2 ^ nat (bitlen m)" using hi by simp
  then have "(of_int (m + 1) :: real) \<le> of_int (2 ^ nat (bitlen m))" by (simp only: of_int_le_iff)
  then have "y \<le> 2 ^ nat (bitlen m)" using my by simp
  then have "1 / 2 ^ nat (bitlen m) \<le> 1 / y"
    using y1 by (simp add: frac_le)
  moreover have "1 / y = \<bar>x\<bar>" by (simp add: y_def)
  moreover have "(2 :: real) powi (- bitlen m) = 1 / 2 ^ nat (bitlen m)"
    using pos by (simp add: power_int_def field_simps)
  ultimately have 1: "2 powi binade x \<le> \<bar>x\<bar>" by (simp add: b)
  have "(of_int (2 ^ nat (bitlen m - 1)) :: real) \<le> of_int m" using lo by (simp only: of_int_le_iff)
  then have "(2 :: real) ^ nat (bitlen m - 1) \<le> of_int m" by simp
  then have "2 ^ nat (bitlen m - 1) < y" using my by linarith
  then have "1 / y < 1 / 2 ^ nat (bitlen m - 1)"
    by (simp add: frac_less2)
  moreover have "(2 :: real) powi (- bitlen m + 1) = 1 / 2 ^ nat (bitlen m - 1)"
  proof -
    have "- bitlen m + 1 = - int (nat (bitlen m - 1))" using pos by simp
    then show ?thesis by (simp only: power_int_minus power_int_of_nat) (simp add: field_simps)
  qed
  ultimately have 2: "\<bar>x\<bar> < 2 powi (binade x + 1)" using \<open>1 / y = \<bar>x\<bar>\<close> by (simp add: b)
  show ?thesis using 1 2 by simp
qed

lemma binade_less:
  assumes "x \<noteq> 0" and "\<bar>x\<bar> < 2 powi m"
  shows "binade x < m"
proof (rule ccontr)
  assume "\<not> binade x < m"
  then have "m \<le> binade x" by simp
  then have "(2 :: real) powi m \<le> 2 powi binade x"
    by (intro power_int_increasing) simp_all
  with binade_bounds [OF assms(1)] assms(2) show False by simp
qed

lemma binade_ge:
  assumes "x \<noteq> 0" and "2 powi m \<le> \<bar>x\<bar>"
  shows "m \<le> binade x"
proof (rule ccontr)
  assume "\<not> m \<le> binade x"
  then have "binade x + 1 \<le> m" by simp
  then have "(2 :: real) powi (binade x + 1) \<le> 2 powi m"
    by (intro power_int_increasing) simp_all
  with binade_bounds [OF assms(1)] assms(2) show False by simp
qed

lemma binade_eqI:
  assumes "2 powi e \<le> \<bar>x\<bar>" and "\<bar>x\<bar> < 2 powi (e + 1)"
  shows "binade x = e"
proof -
  have p: "0 < (2 :: real) powi e" by simp
  have x: "x \<noteq> 0"
  proof
    assume "x = 0"
    with assms(1) have "(2 :: real) powi e \<le> 0" by simp
    with p show False by linarith
  qed
  from binade_less [OF x assms(2)] binade_ge [OF x assms(1)] show ?thesis by simp
qed

lemma py_round_int: "py_round (of_int k) = k"
  by (simp add: py_round_def)

lemma py_round_error: "\<bar>of_int (py_round v) - v\<bar> \<le> 1 / 2"
  unfolding py_round_def Let_def by (auto; linarith)

lemma quantum_pos: "0 < quantum x"
  by (simp add: quantum_def)

lemma quantum_eqI:
  assumes "2 powi e \<le> \<bar>x\<bar>" and "\<bar>x\<bar> < 2 powi (e + 1)" and "- 1022 \<le> e"
  shows "quantum x = 2 powi (e - 52)"
  using binade_eqI [OF assms(1,2)] assms(3) by (simp add: quantum_def max_def)

lemma quantum_le:
  assumes "x \<noteq> 0" and "\<bar>x\<bar> < 2 ^ m"
  shows "quantum x \<le> 2 powi (int m - 53)"
proof -
  have "\<bar>x\<bar> < 2 powi (int m)" using assms(2) by simp
  from binade_less [OF assms(1) this] have "max (binade x) (- 1022) - 52 \<le> int m - 53"
    by simp
  then show ?thesis
    unfolding quantum_def by (intro power_int_increasing) simp_all
qed

lemma round_double_near:
  assumes "\<bar>x\<bar> < 2 ^ m" and "m \<le> 1000"
  shows "\<exists>r. round_double x = Finite r \<and> \<bar>r - x\<bar> \<le> 2 powi (int m - 54)"
proof (cases "x = 0")
  case True
  then show ?thesis by (simp add: round_double_def)
next
  case False
  define q where "q = quantum x"
  define r where "r = of_int (py_round (x / q)) * q"
  have q: "0 < q" "q \<le> 2 powi (int m - 53)"
    using quantum_pos [of x] quantum_le [OF False assms(1)] by (simp_all add: q_def)
  have "r - x = (of_int (py_round (x / q)) - x / q) * q"
    using q(1) by (simp add: r_def field_simps)
  then have "\<bar>r - x\<bar> = \<bar>of_int (py_round (x / q)) - x / q\<bar> * q"
    using q(1) by (simp add: abs_mult)
  also have "\<dots> \<le> 1 / 2 * q"
    using py_round_error [of "x / q"] q(1) by (intro mult_right_mono) simp_all
  also have "\<dots> \<le> 1 / 2 * 2 powi (int m - 53)"
    using q(2) by simp
  also have "\<dots> = 2 powi (int m - 54)"
  proof -
    have "(2 :: real) powi (int m - 53) = 2 powi (int m - 54 + 1)" by simp
    also have "\<dots> = 2 powi (int m - 54) * 2" by (subst power_int_add) simp_all
    finally show ?thesis by simp
  qed
  finally have e: "\<bar>r - x\<bar> \<le> 2 powi (int m - 54)" .
  have "(2 :: real) powi (int m - 54) \<le> 2 powi (int m)"
    by (intro power_int_increasing) simp_all
  then have "\<bar>r\<bar> \<le> 2 ^ m + 2 ^ m" using e assms(1) by simp
  also have "\<dots> = 2 ^ Suc m" by simp
  also have "\<dots> < (2 :: real) ^ 1024" using assms(2) by (intro power_strict_increasing) simp_all
  finally have "\<not> 2 ^ 1024 \<le> r" "\<not> r \<le> - (2 ^ 1024)" by simp_all
  then have "round_double x = Finite r"
    using False by (simp add: round_double_def r_def q_def Let_def)
  with e show ?thesis by simp
qed

lemma round_double_exact:
  assumes "x / quantum x = of_int j" and "\<bar>x\<bar> < 2 ^ 1024"
  shows "round_double x = Finite x"
proof (cases "x = 0")
  case True
  then show ?thesis by (simp add: round_double_def)
next
  case False
  have "of_int (py_round (x / quantum x)) = x / quantum x"
    by (simp add: assms(1) py_round_int)
  then have "of_int (py_round (x / quantum x)) * quantum x = x"
    using quantum_pos [of x] by simp
  moreover have "\<not> 2 ^ 1024 \<le> x" "\<not> x \<le> - (2 ^ 1024)"
    using assms(2) by (auto simp: abs_less_iff)
  ultimately show ?thesis
    using False by (simp add: round_double_def Let_def)
qed

lemma round_double_int:
  assumes "\<bar>k\<bar> \<le> 2 ^ 53"
  shows "round_double (of_int k) = Finite (of_int k)"
proof (cases "k = 0")
  case True
  then show ?thesis by (simp add: round_double_def)
next
  case False
  define x :: real where "x = of_int k"
  have x0: "x \<noteq> 0" using False by (simp add: x_def)
  have "(1 :: real) \<le> \<bar>of_int k\<bar>" using False by (simp flip: of_int_abs)
  then have "2 powi 0 \<le> \<bar>x\<bar>" by (simp add: x_def)
  from binade_ge [OF x0 this] have lo: "0 \<le> binade x" .
  have big: "\<bar>x\<bar> < 2 ^ 1024"
  proof -
    have "\<bar>x\<bar> \<le> 2 ^ 53" using assms unfolding x_def by (simp flip: of_int_abs)
    also have "\<dots> < (2 :: real) ^ 1024" by (intro power_strict_increasing) simp_all
    finally show ?thesis .
  qed
  have "\<exists>j. x / quantum x = of_int j"
  proof (cases "\<bar>k\<bar> = 2 ^ 53")
    case True
    then have "\<bar>x\<bar> = 2 ^ 53" unfolding x_def by (simp flip: of_int_abs)
    then have "2 powi 53 \<le> \<bar>x\<bar>" "\<bar>x\<bar> < 2 powi (53 + 1)" by simp_all
    from quantum_eqI [OF this] have "quantum x = 2" by simp
    moreover have "k = 2 * 2 ^ 52 \<or> k = 2 * (- (2 ^ 52))"
      using True by (simp add: abs_if split: if_splits)
    then obtain j where "k = 2 * j" by blast
    ultimately have "x / quantum x = of_int j" by (simp add: x_def)
    then show ?thesis by blast
  next
    case False
    with assms have "\<bar>k\<bar> < 2 ^ 53" by simp
    then have "\<bar>x\<bar> < 2 ^ 53" unfolding x_def by (simp flip: of_int_abs)
    then have "\<bar>x\<bar> < 2 powi 53" by simp
    from binade_less [OF x0 this] have hi: "binade x \<le> 52" by simp
    define n where "n = nat (52 - binade x)"
    have "max (binade x) (- 1022) - 52 = - int n" using lo hi by (simp add: n_def)
    then have "quantum x = 1 / 2 ^ n"
      unfolding quantum_def by (simp only: power_int_minus power_int_of_nat) (simp add: field_simps)
    then have "x / quantum x = of_int (k * 2 ^ n)" by (simp add: x_def)
    then show ?thesis by blast
  qed
  then obtain j where "x / quantum x = of_int j" by blast
  from round_double_exact [OF this big] show ?thesis by (simp add: x_def)
qed

lemma c_fmod_int:
  "c_fmod (of_int p) 360 = (if 0 \<le> p then of_int (p mod 360) else - of_int ((- p) mod 360))"
proof (cases "0 \<le> p")
  case True
  have "\<lfloor>(of_int p :: real) / of_int 360\<rfloor> = p div 360"
    by (rule floor_divide_of_int_eq)
  then have "py_int (of_int p / 360) = p div 360"
    using True by (simp add: py_int_def)
  then have "c_fmod (of_int p) 360 = of_int (p - 360 * (p div 360))"
    by (simp add: c_fmod_def)
  also have "p - 360 * (p div 360) = p mod 360"
    by (simp add: minus_mult_div_eq_mod)
  finally show ?thesis using True by simp
next
  case False
  have "\<lfloor>(of_int (- p) :: real) / of_int 360\<rfloor> = (- p) div 360"
    by (rule floor_divide_of_int_eq)
  then have "\<lceil>(of_int p :: real) / 360\<rceil> = - ((- p) div 360)"
    by (simp add: ceiling_def)
  moreover have "\<not> 0 \<le> (of_int p :: real) / 360" using False by simp
  ultimately have "py_int (of_int p / 360) = - ((- p) div 360)"
    by (simp add: py_int_def)
  then have "c_fmod (of_int p) 360 = - of_int ((- p) - 360 * ((- p) div 360))"
    by (simp add: c_fmod_def)
  also have "(- p) - 360 * ((- p) div 360) = (- p) mod 360"
    by (simp add: minus_mult_div_eq_mod)
  finally show ?thesis using False by simp
qed

lemma float_mod_int:
  "float_mod (Finite (of_int p)) (Finite 360) = Inr (Finite (of_int (p mod 360)))"
proof (cases "0 \<le> p")
  case True
  have "0 \<le> p mod 360" by simp
  then have "\<not> (of_int (p mod 360) :: real) < 0" by simp
  then show ?thesis
    using True by (simp add: c_fmod_int Let_def)
next
  case False
  define r where "r = (- p) mod 360"
  have r: "0 \<le> r" "r < 360" by (simp_all add: r_def)
  have c: "c_fmod (of_int p) 360 = - of_int r"
    using False by (simp add: c_fmod_int r_def)
  show ?thesis
  proof (cases "r = 0")
    case True
    then have "p mod 360 = 0" unfolding r_def by (simp add: zmod_zminus1_eq_if split: if_splits)
    then show ?thesis using True c by (simp add: Let_def)
  next
    case nz: False
    then have m: "p mod 360 = 360 - r"
      unfolding r_def by (simp add: zmod_zminus1_eq_if split: if_splits)
    have "\<bar>360 - r\<bar> \<le> 2 ^ 53" using r by simp
    from round_double_int [OF this] have "round_double (- of_int r + 360) = Finite (of_int (360 - r))"
      by (simp add: algebra_simps)
    moreover have "- (of_int r :: real) \<noteq> 0" "(- of_int r :: real) < 0" using nz r by simp_all
    ultimately show ?thesis
      using c m by (simp add: Let_def)
  qed
qed


lemma normalize_yaw_steps:
  assumes "round_double (yaw + 45) = Finite s"
    and "round_double (s / 90) = Finite d"
    and "\<bar>\<lfloor>d\<rfloor> * 90\<bar> \<le> 2 ^ 53"
  shows "normalize_yaw (Finite yaw) = Inr ((\<lfloor>d\<rfloor> * 90) mod 360)"
proof -
  define k where "k = \<lfloor>d\<rfloor>"
  have "\<bar>k\<bar> \<le> \<bar>k * 90\<bar>" by (simp add: abs_mult)
  then have "\<bar>k\<bar> \<le> 2 ^ 53" using assms(3) by (simp add: k_def)
  from round_double_int [OF this] have a: "float_of_int k = Inr (Finite (of_int k))"
    by (simp add: float_of_int_def)
  have "round_double (of_int (k * 90)) = Finite (of_int (k * 90))"
    using assms(3) by (intro round_double_int) (simp add: k_def)
  then have b: "float_mul (Finite (of_int k)) (Finite 90) = Finite (of_int (k * 90))"
    by simp
  have "0 \<le> (k * 90) mod 360" by simp
  then have c: "int_of_float (Finite (of_int ((k * 90) mod 360))) = Inr ((k * 90) mod 360)"
    by (simp add: int_of_float_def py_int_def)
  have e: "float_mod (float_mul (Finite (of_int k)) (Finite 90)) (Finite 360)
           = Inr (Finite (of_int ((k * 90) mod 360)))"
    by (simp only: b float_mod_int)
  have f: "float_div (float_add (Finite yaw) (Finite 45)) (Finite 90) = Inr (Finite d)"
    by (simp add: assms(1,2))
  have g: "math_floor (Finite d) = Inr k"
    by (simp add: math_floor_def k_def)
  show ?thesis
    unfolding normalize_yaw_def k_def [symmetric] by (simp only: f g a e c sum.case)
qed


lemma normalize_yaw_whole:
  assumes "\<bar>n\<bar> \<le> 2 ^ 52"
  shows "normalize_yaw (Finite (of_int n)) = Inr ((((n + 45) div 90) * 90) mod 360)"
proof -
  define a where "a = n + 45"
  define j where "j = a div 90"
  have a: "\<bar>a\<bar> \<le> 2 ^ 53" using assms by (simp add: a_def)
  from round_double_int [OF a] have s: "round_double (of_int n + 45) = Finite (of_int a)"
    by (simp add: a_def)
  have ra: "(of_int a :: real) = of_int j * 90 + of_int (a mod 90)"
  proof -
    have "(of_int (j * 90 + a mod 90) :: real) = of_int j * 90 + of_int (a mod 90)"
      by simp
    moreover have "j * 90 + a mod 90 = a"
      unfolding j_def by (rule div_mult_mod_eq)
    ultimately show ?thesis by metis
  qed
  have "\<bar>a\<bar> \<le> 2 ^ 52 + 45"
    using assms by (simp add: a_def)
  then have ar: "\<bar>of_int a :: real\<bar> \<le> 2 ^ 52 + 45"
    by (simp flip: of_int_abs)
  then have "\<bar>(of_int a :: real) / 90\<bar> < 2 ^ 46" by simp
  from round_double_near [OF this] obtain d where
    d: "round_double (of_int a / 90) = Finite d" "\<bar>d - of_int a / 90\<bar> \<le> 2 powi (int 46 - 54)"
    by auto
  have j: "\<bar>j * 90\<bar> \<le> 2 ^ 53"
  proof -
    define r where "r = a mod 90"
    have "a = j * 90 + r" by (simp add: j_def r_def)
    moreover have "0 \<le> r" "r < 90" by (simp_all add: r_def)
    moreover have "\<bar>a\<bar> \<le> 4503599627370496 + 45" using assms by (simp add: a_def)
    moreover have "(2 :: int) ^ 53 = 9007199254740992" by simp
    ultimately show ?thesis by linarith
  qed
  have h: "2 powi (int 46 - 54) = (1 / 256 :: real)"
    by simp
  have "\<lfloor>d\<rfloor> = j"
  proof (cases "a mod 90 = 0")
    case True
    then have e: "(of_int a :: real) / 90 = of_int j" using ra by simp
    have "\<bar>j\<bar> \<le> \<bar>j * 90\<bar>" by (simp add: abs_mult)
    with j have "\<bar>j\<bar> \<le> 2 ^ 53" by simp
    from round_double_int [OF this] d(1) have "d = of_int j" by (simp add: e)
    then show ?thesis by simp
  next
    case False
    have "0 \<le> a mod 90" "a mod 90 < 90" by simp_all
    with False have "1 \<le> a mod 90" "a mod 90 \<le> 89" by simp_all
    then have "(1 :: real) \<le> of_int (a mod 90)" "(of_int (a mod 90) :: real) \<le> 89"
      by (simp_all flip: of_int_le_iff)
    then have "of_int j + 1 / 90 \<le> (of_int a :: real) / 90" "(of_int a :: real) / 90 \<le> of_int j + 89 / 90"
      unfolding ra by (simp_all add: field_simps)
    then have "of_int j \<le> d" "d < of_int j + 1" using d(2) unfolding h by linarith+
    then show ?thesis by linarith
  qed
  with normalize_yaw_steps [OF s d(1)] j show ?thesis
    by (simp add: j_def a_def)
qed


section \<open>Properties of the grid indexer and the rotation decomposer\<close>











text \<open>
  C6. For cardinal current and target headings and \<open>diff = (target - current) mod 360\<close>:
  \<open>diff\<close> is 0, 90, 180 or 270; 0 gives no turn, 90 one \<open>RotateRight\<close>, 180 two \<open>RotateRight\<close>
  (no \<open>RotateLeft\<close>), 270 one \<open>RotateLeft\<close> (no \<open>RotateRight\<close>); and the alignment step
  \<open>turn_actions\<close> gives, for any current and desired yaw, what \<open>rotation_actions\<close> gives on
  the two snapped headings (and raises what snapping either of them raises, the current
  one first).
\<close>

theorem rotation_table:
  assumes "cardinal c" and "cardinal t"
  shows "(t - c) mod 360 \<in> {0, 90, 180, 270}
    \<and> ((t - c) mod 360 = 0 \<longrightarrow> rotation_actions c t = [])
    \<and> ((t - c) mod 360 = 90 \<longrightarrow> rotation_actions c t = [RotateRight])
    \<and> ((t - c) mod 360 = 180 \<longrightarrow> rotation_actions c t = [RotateRight, RotateRight])
    \<and> ((t - c) mod 360 = 270 \<longrightarrow> rotation_actions c t = [RotateLeft])
    \<and> turn_actions cy (Some dy)
        = (case normalize_yaw cy of
             Inl e \<Rightarrow> Inl e
           | Inr current \<Rightarrow>
               (case normalize_yaw dy of
                  Inl e \<Rightarrow> Inl e
                | Inr desired \<Rightarrow> Inr (rotation_actions current desired)))"
proof -
  have "(t - c) mod 360 \<in> {0, 90, 180, 270}"
    using assms unfolding cardinal_def by auto
  moreover have "turn_actions cy (Some dy)
        = (case normalize_yaw cy of
             Inl e \<Rightarrow> Inl e
           | Inr current \<Rightarrow>
               (case normalize_yaw dy of
                  Inl e \<Rightarrow> Inl e
                | Inr desired \<Rightarrow> Inr (rotation_actions current desired)))"
    by (simp add: turn_actions_def rotation_actions_def Let_def split: sum.splits)
  ultimately show ?thesis
    by (simp add: rotation_actions_def)
qed

theorem rotation_table_witness:
  "cardinal 90 \<and> cardinal 0 \<and> (0 - 90) mod 360 = (270 :: int)
   \<and> rotation_actions 90 0 = [RotateLeft]
   \<and> rotation_actions 0 180 = [RotateRight, RotateRight]
   \<and> turn_actions (Finite 100) (Some (Finite 10)) = Inr (rotation_actions 90 0)"
proof -
  have c: "cardinal 90" "cardinal 0" "cardinal 180"
    by (simp_all add: cardinal_def)
  have n: "normalize_yaw (Finite 100) = Inr 90" "normalize_yaw (Finite 10) = Inr 0"
    using normalize_yaw_whole [of 100] normalize_yaw_whole [of 10] by simp_all
  have m: "(0 - 90) mod 360 = (270 :: int)" "(180 - 0) mod 360 = (180 :: int)"
    by simp_all
  show ?thesis
    using rotation_table [OF c(1) c(2), of "Finite 100" "Finite 10"]
      rotation_table [OF c(2) c(3), of "Finite 0" "Finite 0"] c n m
    by simp
qed


lemma py_min_from_mem: "py_min_from f b xs \<in> set (b # xs)"
  by (induction xs arbitrary: b) auto








section \<open>Properties of the executor\<close>

text \<open>
  C10. When the event of \<open>GetReachablePositions\<close> has empty or absent metadata, the request
  returns the failure triple with \<open>env.last_event\<close> and the message
  \<open>No reachable positions found\<close>; nothing is raised, and the log shows that the query is
  the only thing that was sent.
\<close>

theorem goto_without_reachable_positions:
  assumes "env_step ops (fst w) GetReachablePositions = (ev, e')"
    and "ev_metadata ev = NoneValue \<or> ev_metadata ev = EmptyDict"
  shows "execute_goto fuel ops target_object_id w
         = Some (Returned (False, env_last_event ops e', ''No reachable positions found''),
                 (e', snd w @ [StepCall GetReachablePositions]))"
  using assms by (auto simp: execute_goto_def do_step_def last_event_def)

theorem goto_without_reachable_positions_witness:
  "ev_metadata (fst (env_step (script_ops EmptyDict NoneValue) () GetReachablePositions)) = EmptyDict
   \<and> execute_goto 5 (script_ops EmptyDict NoneValue) (Some ''Mug'') ((), [])
       = Some (Returned (False, None, ''No reachable positions found''),
               ((), [StepCall GetReachablePositions]))"
proof -
  have a: "env_step (script_ops EmptyDict NoneValue) (fst ((), [])) GetReachablePositions
           = (\<lparr>ev_metadata = EmptyDict\<rparr>, ())"
    by (simp add: script_ops_def)
  have b: "ev_metadata \<lparr>ev_metadata = EmptyDict\<rparr> = NoneValue
           \<or> ev_metadata \<lparr>ev_metadata = EmptyDict\<rparr> = EmptyDict"
    by simp
  show ?thesis
    using goto_without_reachable_positions [OF a b, of 5 "Some ''Mug''"]
    by (simp add: script_ops_def)
qed


text \<open>
  C5. After a snapshot of reachable positions, an empty list of interactable poses makes
  the request raise, and a list whose first candidate is \<open>None\<close> makes it return the failure
  triple \<open>(False, env.last_event, 'GotoLocation missing valid target')\<close>.
\<close>

theorem goto_candidate_list:
  assumes "env_step ops (fst w) GetReachablePositions = (ev1, e1)"
    and "ev_metadata ev1 = Dict reach_meta"
    and "env_step ops e1 (GetInteractablePoses target_object_id (meta_action_return reach_meta)) = (ev2, e2)"
    and "ev_metadata ev2 = Dict pose_meta"
  shows "(meta_action_return pose_meta = Poses [] \<longrightarrow>
            (\<exists>w2. execute_goto fuel ops target_object_id w
               = Some (Raised (RuntimeError ''No interactable poses returned for target object''), w2)))
       \<and> (meta_action_return pose_meta = Poses (None # others) \<longrightarrow>
            (\<exists>w2. execute_goto fuel ops target_object_id w
               = Some (Returned (False, env_last_event ops e2, ''GotoLocation missing valid target''), w2)))"
  using assms by (auto simp: execute_goto_def do_step_def last_event_def interactable_poses_def)

theorem goto_candidate_list_witness:
  "(\<exists>w2. execute_goto 5 (script_ops (Dict two_islands) (Dict (candidates []))) (Some ''Mug'') ((), [])
       = Some (Raised (RuntimeError ''No interactable poses returned for target object''), w2))
   \<and> (\<exists>w2. execute_goto 5 (script_ops (Dict two_islands) (Dict (candidates [None]))) (Some ''Mug'') ((), [])
       = Some (Returned (False, None, ''GotoLocation missing valid target''), w2))"
proof -
  have a: "env_step (script_ops (Dict two_islands) (Dict (candidates ps))) (fst ((), [])) GetReachablePositions
           = (\<lparr>ev_metadata = Dict two_islands\<rparr>, ())" for ps
    by (simp add: script_ops_def)
  have b: "ev_metadata \<lparr>ev_metadata = Dict two_islands\<rparr> = Dict two_islands"
    by simp
  have c: "env_step (script_ops (Dict two_islands) (Dict (candidates ps))) ()
             (GetInteractablePoses (Some ''Mug'') (meta_action_return two_islands))
           = (\<lparr>ev_metadata = Dict (candidates ps)\<rparr>, ())" for ps
    by (simp add: script_ops_def)
  have d: "ev_metadata \<lparr>ev_metadata = Dict (candidates ps)\<rparr> = Dict (candidates ps)" for ps
    by simp
  have e: "meta_action_return (candidates ps) = Poses ps" for ps
    by (simp add: candidates_def)
  show ?thesis
    using goto_candidate_list [OF a b c d, of "[]" 5 "[]"]
      goto_candidate_list [OF a b c d, of "[None]" 5 "[]"] e
    by (simp add: script_ops_def)
qed


text \<open>
  C3. When \<open>jps_actions\<close> raises its no-path error, the route is what \<open>astar_actions\<close>
  gives on the same table, the adjacency built from it, and the same start key, heading
  and goal key; and an exception of \<open>astar_actions\<close> is raised by the request, after the
  two queries and before any primitive.
\<close>

theorem goto_planner_fallback:
  assumes "env_step ops (fst w) GetReachablePositions = (ev1, e1)"
    and "ev_metadata ev1 = Dict reach_meta"
    and "meta_action_return reach_meta = Positions ps"
    and "env_step ops e1 (GetInteractablePoses target_object_id (Positions ps)) = (ev2, e2)"
    and "ev_metadata ev2 = Dict pose_meta"
    and "meta_action_return pose_meta = Poses (Some target_position # others)"
    and "nearest_key (build_node_lookup ps) (agent_position (meta_agent reach_meta)) = Inr start_key"
    and "nearest_key (build_node_lookup ps) (pose_position target_position) = Inr target_key"
    and "normalize_yaw (agent_rotation_y (meta_agent reach_meta)) = Inr start_yaw"
    and "jps_actions (build_node_lookup ps) start_key start_yaw target_key
         = Some (Inl (RuntimeError ''No path found to target using JPS''))"
  shows "plan_route (build_node_lookup ps) start_key start_yaw target_key
         = astar_actions (build_node_lookup ps) (build_adjacency (build_node_lookup ps)) start_key
             start_yaw target_key
       \<and> (astar_actions (build_node_lookup ps) (build_adjacency (build_node_lookup ps)) start_key
             start_yaw target_key = Some (Inl e)
          \<longrightarrow> execute_goto fuel ops target_object_id w
              = Some (Raised e, (e2, snd w @ [StepCall GetReachablePositions,
                   StepCall (GetInteractablePoses target_object_id (Positions ps))])))"
proof -
  have p: "plan_route (build_node_lookup ps) start_key start_yaw target_key
         = astar_actions (build_node_lookup ps) (build_adjacency (build_node_lookup ps)) start_key
             start_yaw target_key"
    using assms(10) by (simp add: plan_route_def)
  show ?thesis
    using assms(1-9) p
    by (auto simp: execute_goto_def do_step_def last_event_def interactable_poses_def)
qed

lemma islands: "build_node_lookup [(0, 0), (1, 0)] = [((0, 0), (0, 0)), ((100, 0), (1, 0))]"
  by (simp add: build_node_lookup_def make_key_def py_round_def)

lemma islands_jps:
  "jps_actions [((0, 0), (0, 0)), ((100, 0), (1, 0))] (0, 0) 0 (100, 0)
   = Some (Inl (RuntimeError ''No path found to target using JPS''))"
  by (simp add: jps_actions_def jps_heuristic_def dict_get_def heappush_def
     jps_loop.simps heappop_def pruned_directions_def
     CARDINAL_DIRECTIONS_def STEP_SIZE_def make_key_def py_round_def)

lemma islands_astar:
  "astar_actions [((0, 0), (0, 0)), ((100, 0), (1, 0))]
     (build_adjacency [((0, 0), (0, 0)), ((100, 0), (1, 0))]) (0, 0) 0 (100, 0)
   = Some (Inl (RuntimeError ''No path found to target''))"
  by (simp add: astar_actions_def astar_heuristic_def dict_get_def astar_init_def heappush_def
     astar_loop.simps heappop_def expand_def relax_def move_ahead_def forward_key_def build_adjacency_def
     CARDINAL_DIRECTIONS_def STEP_SIZE_def make_key_def py_round_def Let_def)

theorem goto_planner_fallback_witness:
  "normalize_yaw (agent_rotation_y (meta_agent two_islands)) = Inr 0
   \<and> jps_actions (build_node_lookup [(0, 0), (1, 0)]) (0, 0) 0 (100, 0)
     = Some (Inl (RuntimeError ''No path found to target using JPS''))
   \<and> execute_goto 5
       (script_ops (Dict two_islands)
          (Dict (candidates [Some \<lparr>pose_position = (1, 0), pose_rotation = Some (Finite 0)\<rparr>])))
       (Some ''Mug'') ((), [])
     = Some (Raised (RuntimeError ''No path found to target''),
             ((), [StepCall GetReachablePositions,
                   StepCall (GetInteractablePoses (Some ''Mug'') (Positions [(0, 0), (1, 0)]))]))"
proof -
  let ?t = "\<lparr>pose_position = (1, 0), pose_rotation = Some (Finite 0)\<rparr>"
  let ?ops = "script_ops (Dict two_islands) (Dict (candidates [Some ?t]))"
  have a: "env_step ?ops (fst ((), [])) GetReachablePositions = (\<lparr>ev_metadata = Dict two_islands\<rparr>, ())"
    by (simp add: script_ops_def)
  have b: "ev_metadata \<lparr>ev_metadata = Dict two_islands\<rparr> = Dict two_islands"
    by simp
  have c: "meta_action_return two_islands = Positions [(0, 0), (1, 0)]"
    by (simp add: two_islands_def)
  have d: "env_step ?ops () (GetInteractablePoses (Some ''Mug'') (Positions [(0, 0), (1, 0)]))
           = (\<lparr>ev_metadata = Dict (candidates [Some ?t])\<rparr>, ())"
    by (simp add: script_ops_def)
  have e: "ev_metadata \<lparr>ev_metadata = Dict (candidates [Some ?t])\<rparr> = Dict (candidates [Some ?t])"
    by simp
  have f: "meta_action_return (candidates [Some ?t]) = Poses (Some ?t # [])"
    by (simp add: candidates_def)
  have g: "nearest_key (build_node_lookup [(0, 0), (1, 0)]) (agent_position (meta_agent two_islands))
           = Inr (0, 0)"
    by (simp add: islands nearest_key_def two_islands_def make_key_def py_round_def)
  have h: "nearest_key (build_node_lookup [(0, 0), (1, 0)]) (pose_position ?t) = Inr (100, 0)"
    by (simp add: islands nearest_key_def make_key_def py_round_def)
  have y: "normalize_yaw (agent_rotation_y (meta_agent two_islands)) = Inr 0"
    using normalize_yaw_whole [of 0] by (simp add: two_islands_def)
  have i: "jps_actions (build_node_lookup [(0, 0), (1, 0)]) (0, 0) 0 (100, 0)
           = Some (Inl (RuntimeError ''No path found to target using JPS''))"
    unfolding islands by (rule islands_jps)
  have j: "astar_actions (build_node_lookup [(0, 0), (1, 0)])
             (build_adjacency (build_node_lookup [(0, 0), (1, 0)])) (0, 0) 0 (100, 0)
           = Some (Inl (RuntimeError ''No path found to target''))"
    unfolding islands by (rule islands_astar)
  show ?thesis
    using goto_planner_fallback [OF a b c d e f g h y i, of "RuntimeError ''No path found to target''" 5]
      i j y
    by simp
qed


section \<open>Properties of the visibility scan\<close>

lemma down_log:
  "look_down_loop fuel ops target h w = (out, w', tr)
   \<Longrightarrow> snd w' = snd w @ map (\<lambda>s. ExecuteCall (sent s)) tr \<and> (\<forall>s \<in> set tr. sent s = LookDown)
       \<and> (tr \<noteq> [] \<longrightarrow> horizon_before (hd tr) = h) \<and> out \<noteq> Returned False"
proof (induction fuel arbitrary: h w out w' tr)
  case 0
  then show ?case by (auto split: if_splits)
next
  case (Suc fuel)
  then show ?case
    by (fastforce simp: Let_def do_execute_def split: if_splits prod.splits option.splits)
qed

lemma down_seen:
  "look_down_loop fuel ops target h w = (out, w', tr) \<Longrightarrow> i < length tr
   \<Longrightarrow> saw_target target (tr ! i) \<Longrightarrow> Suc i = length tr \<and> out = Returned True"
proof (induction fuel arbitrary: h w out w' tr i)
  case 0
  then show ?case by (auto split: if_splits)
next
  case (Suc fuel)
  then show ?case
    by (cases i) (auto simp: Let_def saw_target_def split: if_splits prod.splits option.splits)
qed

lemma down_exhausted:
  "look_down_loop fuel ops target h w = (out, w', tr) \<Longrightarrow> i < length tr
   \<Longrightarrow> unseen_at_upper_bound target (tr ! i)
   \<Longrightarrow> Suc i = length tr \<and> out = Raised (RuntimeError held_object_message)"
proof (induction fuel arbitrary: h w out w' tr i)
  case 0
  then show ?case by (auto split: if_splits)
next
  case (Suc fuel)
  show ?case
  proof (cases i)
    case 0
    have z: "look_down_loop fuel ops target h' w1 = (o1, w2, r1) \<Longrightarrow> max_horizon - 1 / 1000 \<le> h'
          \<Longrightarrow> r1 = [] \<and> o1 = Raised (RuntimeError held_object_message)" for h' w1 o1 w2 r1
      by (cases fuel) auto
    show ?thesis
      using Suc.prems 0 z
      by (auto simp: Let_def saw_target_def unseen_at_upper_bound_def horizon_after_def
          split: if_splits prod.splits option.splits)
  next
    case (Suc j)
    then show ?thesis
      using Suc.prems Suc.IH
      by (auto simp: Let_def split: if_splits prod.splits option.splits)
  qed
qed

lemma up_shape:
  "look_up_loop fuel ops target h w = (out, w', tr)
   \<Longrightarrow> \<exists>ups downs. tr = ups @ downs
         \<and> (\<forall>s \<in> set ups. sent s = LookUp \<and> min_horizon + 1 / 1000 < horizon_before s)
         \<and> (\<forall>s \<in> set downs. sent s = LookDown)
         \<and> (downs \<noteq> [] \<longrightarrow> horizon_before (hd downs) \<le> min_horizon + 1 / 1000)"
proof (induction fuel arbitrary: h w out w' tr)
  case 0
  show ?case
  proof (cases "min_horizon + 1 / 1000 < h")
    case True
    with 0 show ?thesis by simp
  next
    case False
    with 0 have d: "look_down_loop 0 ops target h w = (out, w', tr)" by simp
    show ?thesis
      using down_log [OF d] False by (intro exI [of _ "[]"] exI [of _ tr]) auto
  qed
next
  case (Suc fuel)
  show ?case
  proof (cases "min_horizon + 1 / 1000 < h")
    case False
    with Suc.prems have d: "look_down_loop (Suc fuel) ops target h w = (out, w', tr)" by simp
    show ?thesis
      using down_log [OF d] False by (intro exI [of _ "[]"] exI [of _ tr]) auto
  next
    case True
    obtain ok ev err w1 where e: "do_execute ops LookUp w = ((ok, ev, err), w1)"
      by (metis prod.exhaust)
    define s where "s = \<lparr>sent = LookUp, horizon_before = h, succeeded = ok, response = ev\<rparr>"
    have s: "sent s = LookUp" "min_horizon + 1 / 1000 < horizon_before s"
      using True by (simp_all add: s_def)
    have "tr = [s] \<or> (\<exists>h' out1 w2 rest. look_up_loop fuel ops target h' w1 = (out1, w2, rest)
                 \<and> tr = s # rest)"
      using Suc.prems True e
      by (auto simp: Let_def s_def split: if_splits option.splits prod.splits)
    then consider (stop) "tr = [s]"
      | (go) h' out1 w2 rest where "look_up_loop fuel ops target h' w1 = (out1, w2, rest)"
          "tr = s # rest"
      by blast
    then show ?thesis
    proof cases
      case stop
      then show ?thesis
        using s by (intro exI [of _ "[s]"] exI [of _ "[]"]) simp
    next
      case go
      from Suc.IH [OF go(1)] obtain ups downs where
        r: "rest = ups @ downs"
          "\<forall>s \<in> set ups. sent s = LookUp \<and> min_horizon + 1 / 1000 < horizon_before s"
          "\<forall>s \<in> set downs. sent s = LookDown"
          "downs \<noteq> [] \<longrightarrow> horizon_before (hd downs) \<le> min_horizon + 1 / 1000"
        by blast
      show ?thesis
        using r s go(2) by (intro exI [of _ "s # ups"] exI [of _ downs]) simp
    qed
  qed
qed

lemma up_log:
  "look_up_loop fuel ops target h w = (out, w', tr)
   \<Longrightarrow> snd w' = snd w @ map (\<lambda>s. ExecuteCall (sent s)) tr \<and> out \<noteq> Returned False"
proof (induction fuel arbitrary: h w out w' tr)
  case 0
  then show ?case
    using down_log [of 0 ops target h w out w' tr] by (auto split: if_splits)
next
  case (Suc fuel)
  show ?case
  proof (cases "min_horizon + 1 / 1000 < h")
    case False
    with Suc.prems show ?thesis
      using down_log [of "Suc fuel" ops target h w out w' tr] by simp
  next
    case True
    with Suc.prems Suc.IH show ?thesis
      by (fastforce simp: Let_def do_execute_def split: if_splits prod.splits option.splits)
  qed
qed

lemma up_seen:
  "look_up_loop fuel ops target h w = (out, w', tr) \<Longrightarrow> i < length tr
   \<Longrightarrow> saw_target target (tr ! i) \<Longrightarrow> Suc i = length tr \<and> out = Returned True"
proof (induction fuel arbitrary: h w out w' tr i)
  case 0
  then show ?case
    using down_seen [of 0 ops target h w out w' tr i] by (auto split: if_splits)
next
  case (Suc fuel)
  show ?case
  proof (cases "min_horizon + 1 / 1000 < h")
    case False
    with Suc.prems show ?thesis
      using down_seen [of "Suc fuel" ops target h w out w' tr i] by simp
  next
    case True
    with Suc.prems Suc.IH show ?thesis
      by (cases i) (auto simp: Let_def saw_target_def split: if_splits prod.splits option.splits)
  qed
qed

lemma up_exhausted:
  "look_up_loop fuel ops target h w = (out, w', tr) \<Longrightarrow> i < length tr
   \<Longrightarrow> unseen_at_upper_bound target (tr ! i)
   \<Longrightarrow> Suc i = length tr \<and> out = Raised (RuntimeError held_object_message)"
proof (induction fuel arbitrary: h w out w' tr i)
  case 0
  then show ?case
    using down_exhausted [of 0 ops target h w out w' tr i] by (auto split: if_splits)
next
  case (Suc fuel)
  show ?case
  proof (cases "min_horizon + 1 / 1000 < h")
    case False
    with Suc.prems show ?thesis
      using down_exhausted [of "Suc fuel" ops target h w out w' tr i] by simp
  next
    case True
    with Suc.prems Suc.IH show ?thesis
      by (cases i)
        (auto simp: Let_def unseen_at_upper_bound_def split: if_splits prod.splits option.splits)
  qed
qed

text \<open>
  C4. Whatever the environment answers and however long the scan runs: what the scan
  sends is a run of \<open>LookUp\<close>, each sent with the horizon still above \<open>min_horizon\<close>, followed
  by a run of \<open>LookDown\<close>, the first of which is sent with the horizon at \<open>min_horizon\<close> (within
  the tolerance of the code); an iteration that sees the target is the last one and the scan
  returns \<open>True\<close>; a \<open>LookDown\<close> iteration that ends at \<open>max_horizon\<close> without the target is the
  last one and the scan raises the held-object error; and the scan never returns \<open>False\<close>
  after sending anything.
\<close>

theorem visibility_scan_discipline:
  assumes "adjust_horizon_for_visibility fuel ops target w = (out, w', tr)"
  shows "snd w' = snd w @ map (\<lambda>s. ExecuteCall (sent s)) tr
    \<and> (\<exists>ups downs. tr = ups @ downs
         \<and> (\<forall>s \<in> set ups. sent s = LookUp \<and> min_horizon + 1 / 1000 < horizon_before s)
         \<and> (\<forall>s \<in> set downs. sent s = LookDown)
         \<and> (downs \<noteq> [] \<longrightarrow> horizon_before (hd downs) \<le> min_horizon + 1 / 1000))
    \<and> (\<forall>i < length tr. saw_target target (tr ! i) \<longrightarrow> Suc i = length tr \<and> out = Returned True)
    \<and> (\<forall>i < length tr. unseen_at_upper_bound target (tr ! i)
           \<longrightarrow> Suc i = length tr \<and> out = Raised (RuntimeError held_object_message))
    \<and> (out = Returned False \<longrightarrow> tr = [])"
proof (cases "\<exists>ev m. last_event ops w = Some ev \<and> ev_metadata ev = Dict m
                \<and> \<not> is_object_visible (ev_metadata ev) target")
  case False
  then have "tr = []" and "w' = w"
    using assms
    by (auto simp: adjust_horizon_for_visibility_def split: option.splits py_dict.splits if_splits)
  then show ?thesis by simp
next
  case True
  then obtain h0 where
    l: "look_up_loop fuel ops target h0 w = (out, w', tr)"
    using assms
    by (auto simp: adjust_horizon_for_visibility_def split: option.splits py_dict.splits if_splits)
  show ?thesis
    using up_log [OF l] up_shape [OF l] up_seen [OF l] up_exhausted [OF l] by blast
qed

lemmas scan_eval = adjust_horizon_for_visibility_def last_event_def tilt_ops_def tilt_event_def
  is_object_visible_def horizon_of_def min_horizon_def max_horizon_def do_execute_def Let_def

lemma tilt_found:
  "adjust_horizon_for_visibility 20 (tilt_ops (- 10)) ''Mug'' (0, [])
   = (Returned True, (- 10, [ExecuteCall LookUp]),
      [\<lparr>sent = LookUp, horizon_before = 0, succeeded = True,
         response = Some (tilt_event (- 10) (- 10))\<rparr>])"
  by (simp add: scan_eval eval_nat_numeral)

lemma tilt_exhausted:
  "fst (adjust_horizon_for_visibility 20 (tilt_ops 1000) ''Mug'' (0, []))
     = Raised (RuntimeError held_object_message)
   \<and> map sent (snd (snd (adjust_horizon_for_visibility 20 (tilt_ops 1000) ''Mug'' (0, []))))
     = replicate 3 LookUp @ replicate 12 LookDown"
  by (simp add: scan_eval eval_nat_numeral)

theorem visibility_scan_discipline_witness:
  "adjust_horizon_for_visibility 20 (tilt_ops (- 10)) ''Mug'' (0, [])
     = (Returned True, (- 10, [ExecuteCall LookUp]),
        [\<lparr>sent = LookUp, horizon_before = 0, succeeded = True,
           response = Some (tilt_event (- 10) (- 10))\<rparr>])
   \<and> saw_target ''Mug'' \<lparr>sent = LookUp, horizon_before = 0, succeeded = True,
           response = Some (tilt_event (- 10) (- 10))\<rparr>
   \<and> fst (adjust_horizon_for_visibility 20 (tilt_ops 1000) ''Mug'' (0, []))
     = Raised (RuntimeError held_object_message)
   \<and> map sent (snd (snd (adjust_horizon_for_visibility 20 (tilt_ops 1000) ''Mug'' (0, []))))
     = replicate 3 LookUp @ replicate 12 LookDown"
proof -
  let ?s = "\<lparr>sent = LookUp, horizon_before = 0, succeeded = True,
           response = Some (tilt_event (- 10) (- 10))\<rparr>"
  have seen: "saw_target ''Mug'' ?s"
    by (simp add: saw_target_def tilt_event_def is_object_visible_def)
  have "\<forall>i < length [?s]. saw_target ''Mug'' ([?s] ! i)
          \<longrightarrow> Suc i = length [?s] \<and> Returned True = Returned True"
    using visibility_scan_discipline [OF tilt_found] by blast
  then show ?thesis
    using tilt_found tilt_exhausted seen by simp
qed


section \<open>Properties of the A* open list\<close>

lemma sqrt2_bounds: "141 / 100 < sqrt 2" "sqrt 2 < 142 / 100"
  by (rule real_less_rsqrt, simp add: power2_eq_square) (rule real_less_lsqrt, simp_all add: power2_eq_square)

lemma sqrt5_bounds: "223 / 100 < sqrt 5" "sqrt 5 < 224 / 100"
  by (rule real_less_rsqrt, simp add: power2_eq_square) (rule real_less_lsqrt, simp_all add: power2_eq_square)

lemma hypot_steps: "sqrt x / STEP_SIZE = sqrt (16 * x)"
proof -
  have "sqrt 16 = 4" by (rule real_sqrt_unique) simp_all
  then show ?thesis by (simp add: real_sqrt_mult STEP_SIZE_def)
qed

lemmas astar_eval = dict_get_def astar_init_def heappush_def
     heappop_def expand_def relax_def move_ahead_def forward_key_def
     CARDINAL_DIRECTIONS_def STEP_SIZE_def make_key_def py_round_def Let_def


lemma astar_after_loop:
  "astar_after n nodes adjacency goal_key st = Some st'
   \<Longrightarrow> astar_loop nodes adjacency goal_key st = astar_loop nodes adjacency goal_key st'"
proof (induction n arbitrary: st)
  case 0
  then show ?case by simp
next
  case (Suc n)
  then show ?case
    by (subst astar_loop.simps) (auto split: option.splits prod.splits if_splits sum.splits)
qed

lemma heappop_least:
  assumes "heappop heap = Some (m, rest)"
  shows "m \<in> set heap \<and> rest = remove1 m heap \<and> (\<forall>e \<in> set heap. m \<le> e)"
proof -
  from assms obtain x xs where h: "heap = x # xs"
    by (cases heap) (auto simp: heappop_def)
  have "fold min xs x = m" and r: "rest = remove1 m heap"
    using assms unfolding h by (auto simp: heappop_def Let_def)
  then have m: "m = Min (set heap)"
    unfolding h by (simp only: Min.set_eq_fold)
  have "Min (set heap) \<in> set heap"
    unfolding h by (rule Min_in) simp_all
  moreover have "\<forall>e \<in> set heap. Min (set heap) \<le> e"
    by simp
  ultimately show ?thesis
    using m r by simp
qed


lemma relax_entries:
  assumes "relax nodes goal_key cs g ns act (fst ns) st = Inr st'"
    and "inv_entries nodes goal_key st"
  shows "inv_entries nodes goal_key st'"
proof (cases "case g_score st ns of None \<Rightarrow> True | Some old \<Rightarrow> Suc g < old")
  case False
  then have "st' = st" using assms(1) by (simp add: relax_def Let_def)
  then show ?thesis using assms(2) by simp
next
  case True
  then obtain h where h: "astar_heuristic nodes goal_key (fst ns) = Inr h"
    using assms(1) by (cases "astar_heuristic nodes goal_key (fst ns)") (simp_all add: relax_def Let_def)
  have st': "open_heap st' = open_heap st @ [(real (g + 1) + h, g + 1, counter st, ns)]"
    "counter st' = counter st + 1"
    using assms(1) True h by (auto simp: relax_def Let_def heappush_def)
  have old: "\<forall>(f, g, c, s) \<in> set (open_heap st).
          astar_heuristic nodes goal_key (fst s) = Inr (f - real g) \<and> c < counter st"
    and d: "distinct (map (\<lambda>(f, g, c, s). c) (open_heap st))"
    using assms(2) by (simp_all add: inv_entries_def)
  have "counter st \<notin> set (map (\<lambda>(f, g, c, s). c) (open_heap st))"
    using old by fastforce
  with d have "distinct (map (\<lambda>(f, g, c, s). c) (open_heap st'))"
    by (simp add: st')
  moreover have "\<forall>(f, g, c, s) \<in> set (open_heap st').
          astar_heuristic nodes goal_key (fst s) = Inr (f - real g) \<and> c < counter st'"
    using old h unfolding st' by fastforce
  ultimately show ?thesis by (simp add: inv_entries_def)
qed

lemma expand_entries:
  assumes "expand nodes adjacency goal_key cs g st = Inr st'"
    and "inv_entries nodes goal_key st"
  shows "inv_entries nodes goal_key st'"
proof -
  from assms(1) obtain st1 st2 where
    1: "relax nodes goal_key cs g (fst cs, (snd cs - 90) mod 360) RotateLeft (fst cs) st = Inr st1"
    and 2: "relax nodes goal_key cs g (fst cs, (snd cs + 90) mod 360) RotateRight (fst cs) st1 = Inr st2"
    and 3: "move_ahead nodes adjacency goal_key cs g st2 = Inr st'"
    by (auto simp: expand_def Let_def split: sum.splits)
  have i1: "inv_entries nodes goal_key st1"
    using relax_entries [of nodes goal_key cs g "(fst cs, (snd cs - 90) mod 360)"] 1 assms(2) by simp
  have i2: "inv_entries nodes goal_key st2"
    using relax_entries [of nodes goal_key cs g "(fst cs, (snd cs + 90) mod 360)"] 2 i1 by simp
  show ?thesis
  proof (cases "forward_key nodes (fst cs) (snd cs)")
    case (Inl e)
    then show ?thesis using 3 by (simp add: move_ahead_def)
  next
    case (Inr nk)
    show ?thesis
    proof (cases "dict_get adjacency (fst cs)")
      case (Inl e)
      then show ?thesis using 3 Inr by (simp add: move_ahead_def)
    next
      case nb: (Inr neighbors)
      show ?thesis
      proof (cases "nk \<in> set neighbors")
        case True
        then have "relax nodes goal_key cs g (nk, snd cs) MoveAhead nk st2 = Inr st'"
          using 3 Inr nb by (simp add: move_ahead_def)
        with relax_entries [of nodes goal_key cs g "(nk, snd cs)"] i2 show ?thesis by simp
      next
        case False
        then have "st' = st2" using 3 Inr nb by (simp add: move_ahead_def)
        with i2 show ?thesis by simp
      qed
    qed
  qed
qed

lemma popped_entries:
  assumes "heappop (open_heap st) = Some (e, rest)"
    and "inv_entries nodes goal_key st"
  shows "inv_entries nodes goal_key (st\<lparr>open_heap := rest\<rparr>)"
proof -
  have r: "rest = remove1 e (open_heap st)"
    using heappop_least [OF assms(1)] by simp
  have "set rest \<subseteq> set (open_heap st)"
    unfolding r by (rule set_remove1_subset)
  moreover have "distinct (map (\<lambda>(f, g, c, s). c) rest)"
  proof -
    have "distinct (open_heap st)" "inj_on (\<lambda>(f, g, c, s). c) (set (open_heap st))"
      using assms(2) by (simp_all add: inv_entries_def distinct_map)
    then have "distinct rest" "inj_on (\<lambda>(f, g, c, s). c) (set rest)"
      unfolding r using set_remove1_subset [of e "open_heap st"]
      by (simp_all add: inj_on_subset)
    then show ?thesis by (simp add: distinct_map)
  qed
  ultimately show ?thesis
    using assms(2) unfolding inv_entries_def by auto
qed

lemma after_entries:
  "astar_after n nodes adjacency goal_key st = Some st' \<Longrightarrow> inv_entries nodes goal_key st
   \<Longrightarrow> inv_entries nodes goal_key st'"
proof (induction n arbitrary: st)
  case 0
  then show ?case by simp
next
  case (Suc n)
  from Suc.prems(1) obtain f g c cs rest st1 where
    p: "heappop (open_heap st) = Some ((f, g, c, cs), rest)"
    and e: "expand nodes adjacency goal_key cs g (st\<lparr>open_heap := rest\<rparr>) = Inr st1"
    and a: "astar_after n nodes adjacency goal_key st1 = Some st'"
    by (auto split: option.splits if_splits sum.splits)
  show ?case
    by (rule Suc.IH [OF a expand_entries [OF e popped_entries [OF p Suc.prems(2)]]])
qed

lemma init_entries:
  assumes "astar_heuristic nodes goal_key start_key = Inr h0"
  shows "inv_entries nodes goal_key (astar_init (start_key, start_yaw) h0)"
  using assms by (simp add: inv_entries_def astar_init_def heappush_def)

lemma five_cells_nodes:
  "build_node_lookup five_cells
   = [((0,0),(0,0)), ((0,25),(0,1/4)), ((0,50),(0,1/2)), ((25,0),(1/4,0)), ((25,50),(1/4,1/2))]"
  by (simp add: five_cells_def build_node_lookup_def make_key_def py_round_def)

lemma five_cells_adjacency: "build_adjacency [((0,0),(0,0)), ((0,25),(0,1/4)), ((0,50),(0,1/2)), ((25,0),(1/4,0)), ((25,50),(1/4,1/2))]
   = [((0,0),[(0,25),(25,0)]), ((0,25),[(0,50),(0,0)]), ((0,50),[(25,50),(0,25)]), ((25,0),[(0,0)]), ((25,50),[(0,50)])]"
  by (simp add: build_adjacency_def CARDINAL_DIRECTIONS_def STEP_SIZE_def make_key_def py_round_def)

lemma five_cells_heuristic: 
  "astar_heuristic [((0,0),(0,0)), ((0,25),(0,1/4)), ((0,50),(0,1/2)), ((25,0),(1/4,0)), ((25,50),(1/4,1/2))] (25,50) (0,0) = Inr (sqrt 5)"
  "astar_heuristic [((0,0),(0,0)), ((0,25),(0,1/4)), ((0,50),(0,1/2)), ((25,0),(1/4,0)), ((25,50),(1/4,1/2))] (25,50) (0,25) = Inr (sqrt 2)"
  "astar_heuristic [((0,0),(0,0)), ((0,25),(0,1/4)), ((0,50),(0,1/2)), ((25,0),(1/4,0)), ((25,50),(1/4,1/2))] (25,50) (0,50) = Inr 1"
  "astar_heuristic [((0,0),(0,0)), ((0,25),(0,1/4)), ((0,50),(0,1/2)), ((25,0),(1/4,0)), ((25,50),(1/4,1/2))] (25,50) (25,0) = Inr 2"
  by (simp_all add: astar_heuristic_def dict_get_def hypot_steps power2_eq_square)

lemma five_cells_run:
  "map_option open_heap
       (astar_after 7 (build_node_lookup five_cells) (build_adjacency (build_node_lookup five_cells))
          (25, 50) (astar_init ((0, 0), 0) (sqrt 5)))
     = Some [(4, 3, 7, ((0, 50), 270)), (4, 3, 8, ((0, 50), 90)), (2 + sqrt 5, 2, 9, ((0, 0), 180)),
             (4, 2, 10, ((25, 0), 90)), (3 + sqrt 2, 3, 11, ((0, 25), 180))]"
  unfolding five_cells_nodes five_cells_adjacency
  using sqrt2_bounds sqrt5_bounds
  by (simp add: astar_eval five_cells_heuristic eval_nat_numeral)

text \<open>
  C8 as the code has it. In every state \<open>st\<close> that the loop of \<open>astar_actions\<close> reaches
  (after any number \<open>n\<close> of iterations, on any table and adjacency), each entry of the open
  list is \<open>(g + h, g, c, state)\<close> with \<open>h\<close> the heuristic of the state's key and \<open>c\<close> a number
  the counter gave before; no two entries have the same \<open>c\<close>; and the entry the next
  iteration pops is the least in the lexicographic order on \<open>(f, g, c)\<close>: least \<open>f\<close>; among
  equal \<open>f\<close> the least \<open>g\<close>; among equal \<open>f\<close> and \<open>g\<close> the earliest insertion. The insertion
  numbers being distinct, the state never takes part.
\<close>

theorem open_list_order:
  assumes "start_key \<noteq> goal_key"
    and "astar_heuristic nodes goal_key start_key = Inr h0"
    and "astar_after n nodes adjacency goal_key (astar_init (start_key, start_yaw) h0) = Some st"
  shows "astar_actions nodes adjacency start_key start_yaw goal_key
         = astar_loop nodes adjacency goal_key st
    \<and> (\<forall>f g c s. (f, g, c, s) \<in> set (open_heap st) \<longrightarrow>
          (\<exists>h. astar_heuristic nodes goal_key (fst s) = Inr h \<and> f = real g + h) \<and> c < counter st)
    \<and> distinct (map (\<lambda>(f, g, c, s). c) (open_heap st))
    \<and> (\<forall>f g c s rest. heappop (open_heap st) = Some ((f, g, c, s), rest) \<longrightarrow>
          (f, g, c, s) \<in> set (open_heap st) \<and> rest = remove1 (f, g, c, s) (open_heap st)
          \<and> (\<forall>f' g' c' s'. (f', g', c', s') \<in> set (open_heap st) \<and> (f', g', c', s') \<noteq> (f, g, c, s) \<longrightarrow>
                f < f' \<or> (f = f' \<and> (g < g' \<or> (g = g' \<and> c < c')))))"
proof -
  have inv: "inv_entries nodes goal_key st"
    using after_entries [OF assms(3) init_entries [OF assms(2)]] .
  then have shape: "\<forall>(f, g, c, s) \<in> set (open_heap st).
          astar_heuristic nodes goal_key (fst s) = Inr (f - real g) \<and> c < counter st"
    and d: "distinct (map (\<lambda>(f, g, c, s). c) (open_heap st))"
    by (simp_all add: inv_entries_def)
  have a: "astar_actions nodes adjacency start_key start_yaw goal_key
         = astar_loop nodes adjacency goal_key st"
    using assms(1,2) astar_after_loop [OF assms(3)] by (simp add: astar_actions_def)
  have b: "(\<exists>h. astar_heuristic nodes goal_key (fst s) = Inr h \<and> f = real g + h) \<and> c < counter st"
    if "(f, g, c, s) \<in> set (open_heap st)" for f g c s
  proof -
    from shape that have "astar_heuristic nodes goal_key (fst s) = Inr (f - real g)" "c < counter st"
      by auto
    then show ?thesis by (intro conjI exI [of _ "f - real g"]) simp_all
  qed
  have k: "f < f' \<or> (f = f' \<and> (g < g' \<or> (g = g' \<and> c < c')))"
    if p: "heappop (open_heap st) = Some ((f, g, c, s), rest)"
      and e: "(f', g', c', s') \<in> set (open_heap st)" and ne: "(f', g', c', s') \<noteq> (f, g, c, s)"
    for f g c s rest f' g' c' s'
  proof -
    note l = heappop_least [OF p]
    have le: "(f, g, c, s) \<le> (f', g', c', s')"
      using l e by blast
    have "c \<noteq> c'"
    proof
      assume "c = c'"
      moreover have "inj_on (\<lambda>(f, g, c, s). c) (set (open_heap st))"
        using d by (simp add: distinct_map)
      ultimately have "(f', g', c', s') = (f, g, c, s)"
        using e l inj_onD [of "\<lambda>(f, g, c, s). c" "set (open_heap st)" "(f', g', c', s')" "(f, g, c, s)"]
        by simp
      then show False using ne by simp
    qed
    then show ?thesis
      using le by auto
  qed
  have c: "(f, g, c, s) \<in> set (open_heap st) \<and> rest = remove1 (f, g, c, s) (open_heap st)"
    if "heappop (open_heap st) = Some ((f, g, c, s), rest)" for f g c s rest
    using heappop_least [OF that] by simp
  show ?thesis
    using a b c d k by blast
qed

theorem open_list_order_witness:
  "astar_heuristic (build_node_lookup five_cells) (25, 50) (0, 0) = Inr (sqrt 5)
   \<and> (\<exists>st. astar_after 7 (build_node_lookup five_cells)
               (build_adjacency (build_node_lookup five_cells)) (25, 50)
               (astar_init ((0, 0), 0) (sqrt 5)) = Some st
          \<and> open_heap st
            = [(4, 3, 7, ((0, 50), 270)), (4, 3, 8, ((0, 50), 90)), (2 + sqrt 5, 2, 9, ((0, 0), 180)),
               (4, 2, 10, ((25, 0), 90)), (3 + sqrt 2, 3, 11, ((0, 25), 180))]
          \<and> astar_actions (build_node_lookup five_cells)
               (build_adjacency (build_node_lookup five_cells)) (0, 0) 0 (25, 50)
            = astar_loop (build_node_lookup five_cells)
                (build_adjacency (build_node_lookup five_cells)) (25, 50) st
          \<and> distinct (map (\<lambda>(f, g, c, s). c) (open_heap st))
          \<and> map_option fst (heappop (open_heap st)) = Some (4, 2, 10, ((25, 0), 90)))"
proof -
  let ?N = "build_node_lookup five_cells"
  have h: "astar_heuristic ?N (25, 50) (0, 0) = Inr (sqrt 5)"
    unfolding five_cells_nodes by (simp add: five_cells_heuristic)
  from five_cells_run obtain st where
    st: "astar_after 7 ?N (build_adjacency ?N) (25, 50) (astar_init ((0, 0), 0) (sqrt 5)) = Some st"
    and heap: "open_heap st
            = [(4, 3, 7, ((0, 50), 270)), (4, 3, 8, ((0, 50), 90)), (2 + sqrt 5, 2, 9, ((0, 0), 180)),
               (4, 2, 10, ((25, 0), 90)), (3 + sqrt 2, 3, 11, ((0, 25), 180))]"
    by blast
  have ne: "(0 :: int, 0 :: int) \<noteq> (25, 50)"
    by simp
  have pop: "map_option fst (heappop (open_heap st)) = Some (4, 2, 10, ((25, 0), 90))"
    unfolding heap using sqrt2_bounds sqrt5_bounds by (simp add: heappop_def Let_def)
  from open_list_order [OF ne h st] have
    "astar_actions ?N (build_adjacency ?N) (0, 0) 0 (25, 50) = astar_loop ?N (build_adjacency ?N) (25, 50) st"
    "distinct (map (\<lambda>(f, g, c, s). c) (open_heap st))"
    by blast+
  with h st heap pop show ?thesis
    by blast
qed

text \<open>
  C8 as stated fails. On the five cells, from \<open>(0, 0)\<close> heading 0 to the goal
  \<open>(0.25, 0.5)\<close>, the open list after seven iterations holds two entries with \<open>f = 4\<close>
  inserted as number 7 and number 10; the later one has the smaller \<open>g\<close> and is the one
  popped.
\<close>

theorem open_list_order_counterexample:
  "astar_heuristic (build_node_lookup five_cells) (25, 50) (0, 0) = Inr (sqrt 5)
   \<and> map_option open_heap
       (astar_after 7 (build_node_lookup five_cells) (build_adjacency (build_node_lookup five_cells))
          (25, 50) (astar_init ((0, 0), 0) (sqrt 5)))
     = Some [(4, 3, 7, ((0, 50), 270)), (4, 3, 8, ((0, 50), 90)), (2 + sqrt 5, 2, 9, ((0, 0), 180)),
             (4, 2, 10, ((25, 0), 90)), (3 + sqrt 2, 3, 11, ((0, 25), 180))]
   \<and> map_option fst
       (heappop [(4, 3, 7, ((0, 50), 270)), (4, 3, 8, ((0, 50), 90)), (2 + sqrt 5, 2, 9, ((0, 0), 180)),
                 (4, 2 :: nat, 10 :: nat, ((25 :: int, 0 :: int), 90 :: int)),
                 (3 + sqrt 2, 3, 11, ((0, 25), 180))])
     = Some (4, 2, 10, ((25, 0), 90))"
proof -
  have "map_option fst
       (heappop [(4, 3, 7, ((0, 50), 270)), (4, 3, 8, ((0, 50), 90)), (2 + sqrt 5, 2, 9, ((0, 0), 180)),
                 (4, 2 :: nat, 10 :: nat, ((25 :: int, 0 :: int), 90 :: int)),
                 (3 + sqrt 2, 3, 11, ((0, 25), 180))])
     = Some (4, 2, 10, ((25, 0), 90))"
    using sqrt2_bounds sqrt5_bounds
    by (simp add: heappop_def Let_def)
  moreover have "astar_heuristic (build_node_lookup five_cells) (25, 50) (0, 0) = Inr (sqrt 5)"
    unfolding five_cells_nodes by (simp add: five_cells_heuristic)
  ultimately show ?thesis
    using five_cells_run by simp
qed

section \<open>The two planners on the same grid\<close>

lemma sqrt10_bounds: "316 / 100 < sqrt 10" "sqrt 10 < 317 / 100"
  by (rule real_less_rsqrt, simp add: power2_eq_square) (rule real_less_lsqrt, simp_all add: power2_eq_square)

lemma sqrt_squares: "sqrt 16 = 4" "sqrt 9 = 3"
  by (rule real_sqrt_unique, simp_all)+

lemma one_step: "1 / STEP_SIZE = 4"
  by (simp add: STEP_SIZE_def)

lemma walled_nodes:
  "build_node_lookup walled_cells
   = [((0,0),(0,0)), ((25,0),(1/4,0)), ((50,0),(1/2,0)), ((100,0),(1,0)), ((75,25),(3/4,1/4)),
      ((25,-25),(1/4,-(1/4))), ((50,-25),(1/2,-(1/4))), ((75,-25),(3/4,-(1/4))), ((100,-25),(1,-(1/4)))]"
  by (simp add: walled_cells_def build_node_lookup_def make_key_def py_round_def)

lemma walled_adjacency:
  "build_adjacency [((0,0),(0,0)), ((25,0),(1/4,0)), ((50,0),(1/2,0)), ((100,0),(1,0)), ((75,25),(3/4,1/4)),
      ((25,-25),(1/4,-(1/4))), ((50,-25),(1/2,-(1/4))), ((75,-25),(3/4,-(1/4))), ((100,-25),(1,-(1/4)))]
   = [((0,0),[(25,0)]), ((25,0),[(50,0),(25,-25),(0,0)]), ((50,0),[(50,-25),(25,0)]), ((100,0),[(100,-25)]),
      ((75,25),[]), ((25,-25),[(25,0),(50,-25)]), ((50,-25),[(50,0),(75,-25),(25,-25)]),
      ((75,-25),[(100,-25),(50,-25)]), ((100,-25),[(100,0),(75,-25)])]"
  by (simp add: build_adjacency_def CARDINAL_DIRECTIONS_def STEP_SIZE_def make_key_def py_round_def)

lemma walled_heuristic:
  "astar_heuristic [((0,0),(0,0)), ((25,0),(1/4,0)), ((50,0),(1/2,0)), ((100,0),(1,0)), ((75,25),(3/4,1/4)),
      ((25,-25),(1/4,-(1/4))), ((50,-25),(1/2,-(1/4))), ((75,-25),(3/4,-(1/4))), ((100,-25),(1,-(1/4)))] (100,0) k
   = (if k = (0,0) then Inr 4 else if k = (25,0) then Inr 3 else if k = (50,0) then Inr 2
      else if k = (100,0) then Inr 0 else if k = (75,25) then Inr (sqrt 2)
      else if k = (25,-25) then Inr (sqrt 10) else if k = (50,-25) then Inr (sqrt 5)
      else if k = (75,-25) then Inr (sqrt 2) else if k = (100,-25) then Inr 1 else Inl KeyError)"
  by (simp add: astar_heuristic_def dict_get_def hypot_steps power2_eq_square sqrt_squares one_step)

lemma walled_astar:
  "astar_actions (build_node_lookup walled_cells) (build_adjacency (build_node_lookup walled_cells))
     (0, 0) 90 (100, 0)
   = Some (Inr [MoveAhead, MoveAhead, RotateRight, MoveAhead, RotateLeft, MoveAhead, MoveAhead,
                RotateLeft, MoveAhead])"
  unfolding walled_nodes walled_adjacency
  using sqrt2_bounds sqrt5_bounds sqrt10_bounds
  by (simp add: astar_actions_def astar_loop.simps reconstruct.simps astar_eval walled_heuristic)

lemmas jps_eval = jps_actions_def jps_heuristic_def dict_get_def heappush_def
     jps_loop.simps heappop_def pruned_directions_def jps_successor_def jump.simps
     forced_neighbor_exists_def is_walkable_def movement_cost_def
     CARDINAL_DIRECTIONS_def STEP_SIZE_def make_key_def py_round_def reconstruct_path_def
     reconstruct_path_from.simps path_to_actions_def DIR_TO_YAW_def rotation_actions_def Let_def

lemma square_nodes:
  "build_node_lookup square_cells
   = [((0,0),(0,0)), ((25,0),(1/4,0)), ((0,25),(0,1/4)), ((25,25),(1/4,1/4))]"
  by (simp add: square_cells_def build_node_lookup_def make_key_def py_round_def)

lemma square_adjacency:
  "build_adjacency [((0,0),(0,0)), ((25,0),(1/4,0)), ((0,25),(0,1/4)), ((25,25),(1/4,1/4))]
   = [((0,0),[(0,25),(25,0)]), ((25,0),[(25,25),(0,0)]), ((0,25),[(25,25),(0,0)]),
      ((25,25),[(25,0),(0,25)])]"
  by (simp add: build_adjacency_def CARDINAL_DIRECTIONS_def STEP_SIZE_def make_key_def py_round_def)

lemma square_heuristic:
  "astar_heuristic [((0,0),(0,0)), ((25,0),(1/4,0)), ((0,25),(0,1/4)), ((25,25),(1/4,1/4))] (25,25) k
   = (if k = (0,0) then Inr (sqrt 2) else if k = (25,0) then Inr 1 else if k = (0,25) then Inr 1
      else if k = (25,25) then Inr 0 else Inl KeyError)"
  by (simp add: astar_heuristic_def dict_get_def hypot_steps power2_eq_square)

lemma square_astar:
  "astar_actions (build_node_lookup square_cells) (build_adjacency (build_node_lookup square_cells))
     (0, 0) 0 (25, 25)
   = Some (Inr [MoveAhead, RotateRight, MoveAhead])"
  unfolding square_nodes square_adjacency
  using sqrt2_bounds
  by (simp add: astar_actions_def astar_loop.simps reconstruct.simps astar_eval square_heuristic)

lemma square_jps:
  "jps_actions (build_node_lookup square_cells) (0, 0) 0 (25, 25)
   = Some (Inl (RuntimeError ''No path found to target using JPS''))"
  unfolding square_nodes by (simp add: jps_eval)

lemma walled_jps:
  "jps_actions (build_node_lookup walled_cells) (0, 0) 90 (100, 0)
   = Some (Inr [MoveAhead, MoveAhead, MoveAhead, MoveAhead])"
  unfolding walled_nodes by (simp add: jps_eval eval_nat_numeral)


text \<open>
  C2 on the code. From \<open>(0, 0)\<close> heading 90 to \<open>(1, 0)\<close> on the corridor with the gap, the
  JPS plan is four \<open>MoveAhead\<close> in a row, across the missing cell \<open>(0.75, 0)\<close>, and the A*
  plan goes round with six. On the open square, from \<open>(0, 0)\<close> to the opposite corner, JPS
  raises its no-path error and A* returns a plan.
\<close>

theorem jps_plan_differs_from_astar_plan:
  "jps_actions (build_node_lookup walled_cells) (0, 0) 90 (100, 0)
     = Some (Inr [MoveAhead, MoveAhead, MoveAhead, MoveAhead])
   \<and> astar_actions (build_node_lookup walled_cells) (build_adjacency (build_node_lookup walled_cells))
       (0, 0) 90 (100, 0)
     = Some (Inr [MoveAhead, MoveAhead, RotateRight, MoveAhead, RotateLeft, MoveAhead, MoveAhead,
                  RotateLeft, MoveAhead])
   \<and> move_count [MoveAhead, MoveAhead, MoveAhead, MoveAhead] = 4
   \<and> move_count [MoveAhead, MoveAhead, RotateRight, MoveAhead, RotateLeft, MoveAhead, MoveAhead,
                  RotateLeft, MoveAhead] = 6
   \<and> (75, 0) \<notin> set (map fst (build_node_lookup walled_cells))
   \<and> jps_actions (build_node_lookup square_cells) (0, 0) 0 (25, 25)
     = Some (Inl (RuntimeError ''No path found to target using JPS''))
   \<and> astar_actions (build_node_lookup square_cells) (build_adjacency (build_node_lookup square_cells))
       (0, 0) 0 (25, 25)
     = Some (Inr [MoveAhead, RotateRight, MoveAhead])"
  using walled_jps walled_astar square_jps square_astar
  by (simp add: move_count_def walled_nodes)


section \<open>Correctness of the A* planner\<close>

lemma py_round_of_int [simp]: "py_round (of_int k) = k"
  by (simp add: py_round_def)

lemma make_key_key_position: "make_key (fst (key_position k)) (snd (key_position k)) = k"
  by (cases k) (simp add: make_key_def key_position_def)

lemma exact_key_position: "exact (key_position k)"
  by (simp add: exact_def make_key_key_position)

lemma update_entries:
  "(k, v) \<in> set (AList.update k' v' al) \<Longrightarrow> (k, v) = (k', v') \<or> (k, v) \<in> set al"
  by (induction al) (auto split: if_splits)

lemma build_node_lookup_entries:
  assumes "\<forall>p \<in> set positions. exact p"
  shows "distinct (map fst (build_node_lookup positions))
       \<and> (\<forall>(k, p) \<in> set (build_node_lookup positions). p = key_position k)"
proof -
  have "distinct (map fst (foldl (\<lambda>tbl pos. AList.update (make_key (fst pos) (snd pos)) pos tbl) acc positions))
       \<and> (\<forall>(k, p) \<in> set (foldl (\<lambda>tbl pos. AList.update (make_key (fst pos) (snd pos)) pos tbl) acc positions).
             p = key_position k)"
    if "distinct (map fst acc)" "\<forall>(k, p) \<in> set acc. p = key_position k" for acc
    using assms that
  proof (induction positions arbitrary: acc)
    case Nil
    then show ?case by simp
  next
    case (Cons q qs)
    let ?acc = "AList.update (make_key (fst q) (snd q)) q acc"
    have "distinct (map fst ?acc)"
      using Cons.prems(2) by (simp add: distinct_update)
    moreover have "\<forall>(k, p) \<in> set ?acc. p = key_position k"
    proof (clarify)
      fix k p assume "(k, p) \<in> set ?acc"
      then have "(k, p) = (make_key (fst q) (snd q), q) \<or> (k, p) \<in> set acc"
        by (rule update_entries)
      then show "p = key_position k"
        using Cons.prems(1,3) by (auto simp: exact_def)
    qed
    ultimately show ?case
      using Cons.IH [of ?acc] Cons.prems(1) by simp
  qed
  from this [of "[]"] show ?thesis
    by (simp add: build_node_lookup_def)
qed

lemma node_lookup:
  assumes "node_table nodes" and "k \<in> node_keys nodes"
  shows "dict_get nodes k = Inr (key_position k)"
proof -
  from assms(2) obtain p where p: "(k, p) \<in> set nodes"
    by (auto simp: node_keys_def)
  then have "map_of nodes k = Some p"
    using assms(1) by (simp add: node_table_def)
  moreover have "p = key_position k"
    using assms(1) p by (auto simp: node_table_def)
  ultimately show ?thesis
    by (simp add: dict_get_def)
qed

lemma make_key_step:
  "make_key (fst (key_position k) + dx * STEP_SIZE) (snd (key_position k) + dz * STEP_SIZE)
   = (py_round (of_int (fst k) + 25 * dx), py_round (of_int (snd k) + 25 * dz))"
  by (simp add: make_key_def key_position_def STEP_SIZE_def algebra_simps)

lemma forward_key_ahead:
  assumes "node_table nodes" and "valid_state nodes s"
  shows "forward_key nodes (fst s) (snd s) = Inr (ahead (fst s) (snd s))"
proof -
  have n: "dict_get nodes (fst s) = Inr (key_position (fst s))"
    using assms node_lookup by (simp add: valid_state_def)
  have r: "py_round (of_int a + 25) = a + 25" "py_round (of_int a - 25) = a - 25" for a :: int
    using py_round_of_int [of "a + 25"] py_round_of_int [of "a - 25"] by simp_all
  show ?thesis
    using assms(2) n
    by (auto simp: valid_state_def cardinal_def forward_key_def dict_get_def CARDINAL_DIRECTIONS_def
        ahead_def make_key_def key_position_def STEP_SIZE_def r algebra_simps)
qed

lemma ahead_cases:
  "cardinal y \<Longrightarrow> ahead k y \<in> {(fst k, snd k + 25), (fst k + 25, snd k), (fst k, snd k - 25), (fst k - 25, snd k)}"
  by (auto simp: ahead_def)

lemma ahead_set:
  "set [ahead k 0, ahead k 90, ahead k 180, ahead k 270] = {n. \<exists>y. cardinal y \<and> n = ahead k y}"
  by (auto simp: cardinal_def)

lemma adjacency_lookup:
  assumes "node_table nodes" and "k \<in> node_keys nodes"
  shows "\<exists>neighbors. dict_get (build_adjacency nodes) k = Inr neighbors
           \<and> set neighbors = {n. n \<in> node_keys nodes \<and> (\<exists>y. cardinal y \<and> n = ahead k y)}"
proof -
  let ?f = "\<lambda>pos. filter (\<lambda>neighbor_key. neighbor_key \<in> set (map fst nodes))
                    (map (\<lambda>(yaw, (dx, dz)). make_key (fst pos + dx) (snd pos + dz))
                       CARDINAL_DIRECTIONS)"
  have b: "build_adjacency nodes = map (\<lambda>(key, pos). (key, ?f pos)) nodes"
    by (simp add: build_adjacency_def)
  have n: "map_of nodes k = Some (key_position k)"
    using node_lookup [OF assms] by (simp add: dict_get_def split: option.splits)
  have "map_of (build_adjacency nodes) k = Some (?f (key_position k))"
    unfolding b map_of_map using n by simp
  then have d: "dict_get (build_adjacency nodes) k = Inr (?f (key_position k))"
    by (simp add: dict_get_def)
  have r: "py_round (of_int a + 25) = a + 25" "py_round (of_int a - 25) = a - 25" for a :: int
    using py_round_of_int [of "a + 25"] py_round_of_int [of "a - 25"] by simp_all
  have m: "map (\<lambda>(yaw, (dx, dz)). make_key (fst (key_position k) + dx) (snd (key_position k) + dz))
                       CARDINAL_DIRECTIONS
           = [ahead k 0, ahead k 90, ahead k 180, ahead k 270]"
    by (simp add: CARDINAL_DIRECTIONS_def ahead_def make_key_def key_position_def STEP_SIZE_def r
        algebra_simps)
  have "set (?f (key_position k))
        = {n. n \<in> set [ahead k 0, ahead k 90, ahead k 180, ahead k 270] \<and> n \<in> set (map fst nodes)}"
    unfolding m set_filter by blast
  also have "\<dots> = {n. n \<in> node_keys nodes \<and> (\<exists>y. cardinal y \<and> n = ahead k y)}"
    unfolding ahead_set node_keys_def by blast
  finally show ?thesis
    using d by blast
qed

lemma step_move:
  assumes "node_table nodes" and "valid_state nodes s"
  shows "step_action nodes (build_adjacency nodes) s MoveAhead
         = (if ahead (fst s) (snd s) \<in> node_keys nodes then Some (ahead (fst s) (snd s), snd s)
            else None)"
proof -
  have k: "fst s \<in> node_keys nodes" and c: "cardinal (snd s)"
    using assms(2) by (simp_all add: valid_state_def)
  from adjacency_lookup [OF assms(1) k] obtain neighbors where
    n: "dict_get (build_adjacency nodes) (fst s) = Inr neighbors"
      "set neighbors = {n. n \<in> node_keys nodes \<and> (\<exists>y. cardinal y \<and> n = ahead (fst s) y)}"
    by blast
  have "ahead (fst s) (snd s) \<in> set neighbors \<longleftrightarrow> ahead (fst s) (snd s) \<in> node_keys nodes"
    using n(2) c by blast
  then show ?thesis
    using n(1) forward_key_ahead [OF assms] by (simp add: step_action_def)
qed

lemma step_rotate:
  "step_action nodes adjacency s RotateLeft = Some (fst s, (snd s - 90) mod 360)"
  "step_action nodes adjacency s RotateRight = Some (fst s, (snd s + 90) mod 360)"
  by (simp_all add: step_action_def)

lemma rotate_cardinal:
  "cardinal y \<Longrightarrow> cardinal ((y - 90) mod 360) \<and> cardinal ((y + 90) mod 360)
     \<and> (y - 90) mod 360 \<noteq> y \<and> (y + 90) mod 360 \<noteq> y"
  by (auto simp: cardinal_def)

lemma ahead_neq: "ahead k y \<noteq> k"
  by (cases k) (auto simp: ahead_def)

lemma step_valid:
  assumes "node_table nodes" and "valid_state nodes s"
    and "step_action nodes (build_adjacency nodes) s a = Some s'"
  shows "valid_state nodes s' \<and> s' \<noteq> s"
proof -
  have k: "fst s \<in> node_keys nodes" and c: "cardinal (snd s)"
    using assms(2) by (simp_all add: valid_state_def)
  show ?thesis
  proof (cases a)
    case MoveAhead
    then have "ahead (fst s) (snd s) \<in> node_keys nodes" and "s' = (ahead (fst s) (snd s), snd s)"
      using assms(3) step_move [OF assms(1,2)] by (auto split: if_splits)
    then show ?thesis
      using c ahead_neq [of "fst s" "snd s"] by (cases s) (auto simp: valid_state_def)
  next
    case RotateLeft
    then have "s' = (fst s, (snd s - 90) mod 360)"
      using assms(3) step_rotate(1) by simp
    then show ?thesis
      using k rotate_cardinal [OF c] by (cases s) (auto simp: valid_state_def)
  next
    case RotateRight
    then have "s' = (fst s, (snd s + 90) mod 360)"
      using assms(3) step_rotate(2) by simp
    then show ?thesis
      using k rotate_cardinal [OF c] by (cases s) (auto simp: valid_state_def)
  qed
qed

lemma scaled_squares:
  fixes x y u v :: real
  shows "(x / 100 - y / 100)\<^sup>2 + (u / 100 - v / 100)\<^sup>2 = ((x - y)\<^sup>2 + (u - v)\<^sup>2) / 100\<^sup>2"
proof -
  have "x / 100 - y / 100 = (x - y) / 100" "u / 100 - v / 100 = (u - v) / 100"
    by (simp_all add: diff_divide_distrib)
  then show ?thesis
    by (simp only: power_divide add_divide_distrib)
qed

lemma heuristic_value:
  assumes "node_table nodes" and "k \<in> node_keys nodes" and "goal \<in> node_keys nodes"
  shows "astar_heuristic nodes goal k = Inr (hdist goal k)"
proof -
  define a where "a = (of_int (fst k) - of_int (fst goal) :: real)"
  define b where "b = (of_int (snd k) - of_int (snd goal) :: real)"
  have e: "(fst (key_position k) - fst (key_position goal))\<^sup>2
           + (snd (key_position k) - snd (key_position goal))\<^sup>2 = (a\<^sup>2 + b\<^sup>2) / 100\<^sup>2"
    unfolding key_position_def fst_conv snd_conv a_def b_def by (rule scaled_squares)
  have "sqrt ((a\<^sup>2 + b\<^sup>2) / 100\<^sup>2) = sqrt (a\<^sup>2 + b\<^sup>2) / 100"
    by (simp add: real_sqrt_divide)
  then have "sqrt ((a\<^sup>2 + b\<^sup>2) / 100\<^sup>2) / STEP_SIZE = hdist goal k"
    by (simp add: hdist_def STEP_SIZE_def a_def b_def)
  then have "sqrt ((fst (key_position k) - fst (key_position goal))\<^sup>2
           + (snd (key_position k) - snd (key_position goal))\<^sup>2) / STEP_SIZE = hdist goal k"
    by (simp only: e)
  then show ?thesis
    using node_lookup [OF assms(1,2)] node_lookup [OF assms(1,3)]
    by (simp add: astar_heuristic_def)
qed

lemma hdist_goal [simp]: "hdist goal goal = 0"
  by (simp add: hdist_def)

lemma hdist_nonneg: "0 \<le> hdist goal k"
  by (simp add: hdist_def)

lemma hdist_ahead:
  assumes "cardinal y"
  shows "hdist goal k \<le> hdist goal (ahead k y) + 1"
proof -
  define a where "a = (of_int (fst (ahead k y)) - of_int (fst goal) :: real)"
  define b where "b = (of_int (snd (ahead k y)) - of_int (snd goal) :: real)"
  define dx where "dx = (of_int (fst k) - of_int (fst (ahead k y)) :: real)"
  define dz where "dz = (of_int (snd k) - of_int (snd (ahead k y)) :: real)"
  have "(dx = 0 \<and> \<bar>dz\<bar> = 25) \<or> (\<bar>dx\<bar> = 25 \<and> dz = 0)"
    using assms by (auto simp: dx_def dz_def ahead_def cardinal_def)
  then have n: "sqrt (dx\<^sup>2 + dz\<^sup>2) = 25"
    by auto
  have "sqrt ((a + dx)\<^sup>2 + (b + dz)\<^sup>2) \<le> sqrt (a\<^sup>2 + b\<^sup>2) + sqrt (dx\<^sup>2 + dz\<^sup>2)"
    by (rule real_sqrt_sum_squares_triangle_ineq)
  moreover have "a + dx = of_int (fst k) - of_int (fst goal)" "b + dz = of_int (snd k) - of_int (snd goal)"
    by (simp_all add: a_def b_def dx_def dz_def)
  ultimately have "sqrt ((of_int (fst k) - of_int (fst goal))\<^sup>2 + (of_int (snd k) - of_int (snd goal))\<^sup>2)
      \<le> sqrt (a\<^sup>2 + b\<^sup>2) + 25"
    using n by simp
  then have "hdist goal k * 25 \<le> hdist goal (ahead k y) * 25 + 25"
    by (simp add: hdist_def a_def b_def)
  then show ?thesis
    by simp
qed

lemma hdist_step:
  assumes "node_table nodes" and "valid_state nodes s"
    and "step_action nodes (build_adjacency nodes) s a = Some s'"
  shows "hdist goal (fst s) \<le> hdist goal (fst s') + 1"
proof (cases a)
  case MoveAhead
  then have "fst s' = ahead (fst s) (snd s)"
    using assms step_move [OF assms(1,2)] by (auto split: if_splits)
  then show ?thesis
    using hdist_ahead [of "snd s" goal "fst s"] assms(2) by (simp add: valid_state_def)
next
  case RotateLeft
  then show ?thesis using assms(3) by (auto simp: step_action_def)
next
  case RotateRight
  then show ?thesis using assms(3) by (auto simp: step_action_def)
qed

lemma run_actions_valid:
  assumes "node_table nodes"
  shows "valid_state nodes s \<Longrightarrow> run_actions nodes (build_adjacency nodes) s plan = Some t
         \<Longrightarrow> valid_state nodes t"
proof (induction plan arbitrary: s)
  case Nil
  then show ?case by simp
next
  case (Cons a plan)
  from Cons.prems(2) obtain s' where
    s': "step_action nodes (build_adjacency nodes) s a = Some s'"
      "run_actions nodes (build_adjacency nodes) s' plan = Some t"
    by (auto split: option.splits)
  have "valid_state nodes s'"
    using step_valid [OF assms Cons.prems(1) s'(1)] by simp
  then show ?case
    using Cons.IH s'(2) by blast
qed

lemma admissible:
  assumes "node_table nodes"
  shows "valid_state nodes s \<Longrightarrow> run_actions nodes (build_adjacency nodes) s plan = Some t
         \<Longrightarrow> hdist goal (fst s) \<le> hdist goal (fst t) + real (length plan)"
proof (induction plan arbitrary: s)
  case Nil
  then show ?case by simp
next
  case (Cons a plan)
  from Cons.prems obtain s' where
    s': "step_action nodes (build_adjacency nodes) s a = Some s'"
      "run_actions nodes (build_adjacency nodes) s' plan = Some t"
    by (auto split: option.splits)
  have "valid_state nodes s'"
    using step_valid [OF assms Cons.prems(1) s'(1)] by simp
  then have "hdist goal (fst s') \<le> hdist goal (fst t) + real (length plan)"
    using Cons.IH s'(2) by simp
  moreover have "hdist goal (fst s) \<le> hdist goal (fst s') + 1"
    using hdist_step [OF assms Cons.prems(1) s'(1)] .
  ultimately show ?case by simp
qed

lemma run_actions_append:
  "run_actions nodes adjacency s (p1 @ p2)
   = (case run_actions nodes adjacency s p1 of None \<Rightarrow> None
      | Some s' \<Rightarrow> run_actions nodes adjacency s' p2)"
  by (induction p1 arbitrary: s) (auto split: option.splits)

lemma relax_eq:
  assumes "node_table nodes" and "goal \<in> node_keys nodes" and "fst new \<in> node_keys nodes"
  shows "relax nodes goal cur g new a (fst new) st = Inr (relaxed goal cur g new a st)"
  using heuristic_value [OF assms(1,3,2)]
  by (auto simp: relax_def relaxed_def improves_def pushed_def heappush_def Let_def
      split: option.splits)

lemma lowers_refl: "lowers st st"
  by (simp add: lowers_def)

lemma lowers_trans: "lowers a b \<Longrightarrow> lowers b c \<Longrightarrow> lowers a c"
  unfolding lowers_def by (meson order_trans)

lemma relaxed_lowers: "lowers st (relaxed goal cur g new a st)"
  by (auto simp: lowers_def relaxed_def pushed_def improves_def split: option.splits)

lemma relaxed_new:
  "\<exists>g'. g_score (relaxed goal cur g new a st) new = Some g' \<and> g' \<le> g + 1"
  by (auto simp: relaxed_def pushed_def improves_def split: option.splits)

lemma relaxed_heap_mono:
  "set (open_heap st) \<subseteq> set (open_heap (relaxed goal cur g new a st))"
  by (auto simp: relaxed_def pushed_def)

lemma relaxed_start:
  assumes "inv_start start st"
  shows "inv_start start (relaxed goal cur g new a st)"
  using assms by (auto simp: inv_start_def relaxed_def pushed_def improves_def)

lemma relaxed_valid:
  assumes "inv_valid nodes st" and "valid_state nodes new"
  shows "inv_valid nodes (relaxed goal cur g new a st)"
  using assms by (auto simp: inv_valid_def relaxed_def pushed_def split: if_splits)

lemma relaxed_heap:
  assumes "inv_heap goal st"
  shows "inv_heap goal (relaxed goal cur g new a st)"
proof (cases "improves g new st")
  case False
  then show ?thesis using assms by (simp add: relaxed_def)
next
  case True
  have l: "lowers st (pushed goal cur g new a st)"
    using relaxed_lowers [of st goal cur g new a] True by (simp add: relaxed_def)
  show ?thesis
    unfolding inv_heap_def
  proof (intro allI impI)
    fix f' g' c' s'
    assume "(f', g', c', s') \<in> set (open_heap (relaxed goal cur g new a st))"
    then consider (old) "(f', g', c', s') \<in> set (open_heap st)"
      | (new) "(f', g', c', s') = (real (g + 1) + hdist goal (fst new), g + 1, counter st, new)"
      using True by (auto simp: relaxed_def pushed_def)
    then show "(\<exists>g''. g_score (relaxed goal cur g new a st) s' = Some g'' \<and> g'' \<le> g')
                 \<and> f' = real g' + hdist goal (fst s')"
    proof cases
      case old
      then obtain g0 where "g_score st s' = Some g0" "g0 \<le> g'" "f' = real g' + hdist goal (fst s')"
        using assms unfolding inv_heap_def by blast
      then show ?thesis
        using l True unfolding lowers_def relaxed_def by (metis (full_types) order_trans)
    next
      case new
      then show ?thesis
        using True by (simp add: relaxed_def pushed_def)
    qed
  qed
qed

lemma relaxed_parent:
  assumes "inv_parent nodes start st" and "inv_start start st"
    and "g_score st cur = Some gc" and "gc \<le> g"
    and "step_action nodes (build_adjacency nodes) cur a = Some new"
  shows "inv_parent nodes start (relaxed goal cur g new a st)"
proof (cases "improves g new st")
  case False
  then show ?thesis using assms by (simp add: relaxed_def)
next
  case True
  let ?st = "pushed goal cur g new a st"
  have eq: "relaxed goal cur g new a st = ?st"
    using True by (simp add: relaxed_def)
  have l: "lowers st ?st"
    using relaxed_lowers [of st goal cur g new a] eq by simp
  have ne: "new \<noteq> cur"
    using True assms(3,4) by (auto simp: improves_def)
  have gnew: "g_score ?st new = Some (g + 1)" and cnew: "came_from ?st new = Some (cur, a)"
    by (simp_all add: pushed_def)
  have gother: "g_score ?st t = g_score st t" and cother: "came_from ?st t = came_from st t"
    if "t \<noteq> new" for t
    using that by (simp_all add: pushed_def)
  have old_lower: "\<exists>gt'. g_score ?st t = Some gt' \<and> gt' \<le> gt" if "g_score st t = Some gt" for t gt
    using l that unfolding lowers_def by blast
  show ?thesis
    unfolding eq inv_parent_def
  proof (intro conjI allI impI)
    fix s p b
    assume c: "came_from ?st s = Some (p, b)"
    show "\<exists>gs gp. g_score ?st s = Some gs \<and> g_score ?st p = Some gp \<and> gp < gs
                \<and> step_action nodes (build_adjacency nodes) p b = Some s"
    proof (cases "s = new")
      case True
      then have "p = cur" "b = a"
        using c cnew by simp_all
      moreover have "g_score ?st cur = Some gc"
        using gother [OF ne [symmetric]] assms(3) by simp
      ultimately show ?thesis
        using True gnew assms(4,5) by auto
    next
      case False
      then have "came_from st s = Some (p, b)"
        using c cother by simp
      then obtain gs gp where o: "g_score st s = Some gs" "g_score st p = Some gp" "gp < gs"
        "step_action nodes (build_adjacency nodes) p b = Some s"
        using assms(1) unfolding inv_parent_def by blast
      obtain gp' where "g_score ?st p = Some gp'" "gp' \<le> gp"
        using old_lower [OF o(2)] by blast
      moreover have "g_score ?st s = Some gs"
        using gother [OF False] o(1) by simp
      ultimately show ?thesis
        using o(3,4) by auto
    qed
  next
    fix s gs
    assume "g_score ?st s = Some gs" and n: "came_from ?st s = None"
    then have "s \<noteq> new"
      using cnew by auto
    then show "s = start"
      using \<open>g_score ?st s = Some gs\<close> n gother cother assms(1) unfolding inv_parent_def
      by metis
  qed
qed

lemma settled_mono:
  assumes "settled nodes goal st s g" and "lowers st st'" and "set (open_heap st) \<subseteq> set (open_heap st')"
  shows "settled nodes goal st' s g"
  using assms unfolding settled_def lowers_def
  by (meson order_trans subsetD)

lemma relaxed_settled:
  assumes "inv_settled nodes goal X st"
  shows "inv_settled nodes goal X (relaxed goal cur g new a st)"
proof (cases "improves g new st")
  case False
  then show ?thesis using assms by (simp add: relaxed_def)
next
  case True
  let ?st = "pushed goal cur g new a st"
  have eq: "relaxed goal cur g new a st = ?st"
    using True by (simp add: relaxed_def)
  have l: "lowers st ?st"
    using relaxed_lowers [of st goal cur g new a] eq by simp
  have h: "set (open_heap st) \<subseteq> set (open_heap ?st)"
    using relaxed_heap_mono [of st goal cur g new a] eq by simp
  show ?thesis
    unfolding eq inv_settled_def
  proof (intro allI impI)
    fix s gs
    assume gs: "g_score ?st s = Some gs"
    show "settled nodes goal ?st s gs \<or> (s, gs) \<in> X"
    proof (cases "s = new")
      case True
      then have "gs = g + 1"
        using gs by (simp add: pushed_def)
      then have "(real (g + 1) + hdist goal (fst new), gs, counter st, s) \<in> set (open_heap ?st)"
        using True by (simp add: pushed_def)
      then show ?thesis
        unfolding settled_def by blast
    next
      case False
      then have "g_score st s = Some gs"
        using gs by (simp add: pushed_def)
      then have "settled nodes goal st s gs \<or> (s, gs) \<in> X"
        using assms unfolding inv_settled_def by blast
      then show ?thesis
        using settled_mono [OF _ l h] by blast
    qed
  qed
qed

lemma relaxed_inv:
  assumes "search_inv nodes goal start X st"
    and "g_score st cur = Some gc" and "gc \<le> g"
    and "step_action nodes (build_adjacency nodes) cur a = Some new"
    and "valid_state nodes new"
  shows "search_inv nodes goal start X (relaxed goal cur g new a st)"
proof -
  have i: "inv_start start st" "inv_valid nodes st" "inv_parent nodes start st" "inv_heap goal st"
    "inv_settled nodes goal X st"
    using assms(1) by (simp_all add: search_inv_def)
  show ?thesis
    unfolding search_inv_def
    using relaxed_start [OF i(1)] relaxed_valid [OF i(2) assms(5)]
      relaxed_parent [OF i(3) i(1) assms(2,3,4)] relaxed_heap [OF i(4)] relaxed_settled [OF i(5)]
    by simp
qed

lemma finite_state_space: "finite (state_space nodes)"
  by (simp add: state_space_def node_keys_def)

lemma valid_state_space: "valid_state nodes s \<longleftrightarrow> s \<in> state_space nodes"
  by (cases s) (auto simp: valid_state_def state_space_def cardinal_def)

lemma progress_refl: "progress nodes st st"
  by (simp add: progress_def)

lemma progress_trans:
  assumes "progress nodes a b" and "progress nodes b c"
  shows "progress nodes a c"
proof -
  have t: "trans (less_than <*lex*> (less_than :: (nat \<times> nat) set))"
    by (intro trans_lex_prod trans_less_than)
  show ?thesis
  proof (cases "b = a \<or> c = b")
    case True
    then show ?thesis using assms by auto
  next
    case False
    then have "((unseen nodes b, cost_sum nodes b), (unseen nodes a, cost_sum nodes a))
                 \<in> less_than <*lex*> less_than"
      "((unseen nodes c, cost_sum nodes c), (unseen nodes b, cost_sum nodes b))
                 \<in> less_than <*lex*> less_than"
      using assms by (simp_all add: progress_def)
    then have "((unseen nodes c, cost_sum nodes c), (unseen nodes a, cost_sum nodes a))
                 \<in> less_than <*lex*> less_than"
      using t by (meson transD)
    then show ?thesis by (simp add: progress_def)
  qed
qed

lemma relaxed_progress:
  assumes "valid_state nodes new"
  shows "progress nodes st (relaxed goal cur g new a st)"
proof (cases "improves g new st")
  case False
  then show ?thesis by (simp add: relaxed_def progress_def)
next
  case True
  let ?st = "pushed goal cur g new a st"
  let ?U = "state_space nodes"
  have eq: "relaxed goal cur g new a st = ?st"
    using True by (simp add: relaxed_def)
  have mem: "new \<in> ?U"
    using assms by (simp add: valid_state_space)
  have gs: "g_score ?st = (g_score st)(new \<mapsto> g + 1)"
    by (simp add: pushed_def)
  show ?thesis
  proof (cases "g_score st new")
    case None
    have "{s \<in> ?U. g_score ?st s = None} = {s \<in> ?U. g_score st s = None} - {new}"
      unfolding gs by auto
    moreover have "new \<in> {s \<in> ?U. g_score st s = None}"
      using None mem by simp
    moreover have "finite {s \<in> ?U. g_score st s = None}"
      using finite_state_space by simp
    ultimately have "unseen nodes ?st < unseen nodes st"
      unfolding unseen_def using card_Diff1_less [of "{s \<in> ?U. g_score st s = None}" new] by simp
    then show ?thesis
      unfolding eq progress_def by simp
  next
    case (Some old)
    then have lt: "g + 1 < old"
      using True by (simp add: improves_def)
    have "{s \<in> ?U. g_score ?st s = None} = {s \<in> ?U. g_score st s = None}"
      unfolding gs using Some by auto
    then have u: "unseen nodes ?st = unseen nodes st"
      by (simp add: unseen_def)
    let ?f = "\<lambda>s. case g_score st s of None \<Rightarrow> 0 | Some g \<Rightarrow> g"
    let ?f' = "\<lambda>s. case g_score ?st s of None \<Rightarrow> 0 | Some g \<Rightarrow> g"
    have "sum ?f ?U = ?f new + sum ?f (?U - {new})" "sum ?f' ?U = ?f' new + sum ?f' (?U - {new})"
      using sum.remove [OF finite_state_space mem, of ?f] sum.remove [OF finite_state_space mem, of ?f']
      by simp_all
    moreover have "sum ?f' (?U - {new}) = sum ?f (?U - {new})"
      by (rule sum.cong) (simp_all add: gs)
    moreover have "?f' new < ?f new"
      using lt Some by (simp add: gs)
    ultimately have "cost_sum nodes ?st < cost_sum nodes st"
      unfolding cost_sum_def by linarith
    then show ?thesis
      unfolding eq progress_def using u by simp
  qed
qed

lemma heappop_none: "heappop heap = None \<longleftrightarrow> heap = []"
  by (cases heap) (simp_all add: heappop_def Let_def)

lemma popped_inv:
  assumes "search_inv nodes goal start {} st"
    and "heappop (open_heap st) = Some ((f, g, c, s), rest)"
  shows "search_inv nodes goal start {(s, g)} (st\<lparr>open_heap := rest\<rparr>)"
proof -
  note l = heappop_least [OF assms(2)]
  have sub: "set rest \<subseteq> set (open_heap st)"
    using l by (metis set_remove1_subset)
  have sup: "set (open_heap st) \<subseteq> insert (f, g, c, s) (set rest)"
  proof
    fix e assume "e \<in> set (open_heap st)"
    then show "e \<in> insert (f, g, c, s) (set rest)"
      using l by (cases "e = (f, g, c, s)") (simp_all add: in_set_remove1)
  qed
  have i: "inv_start start st" "inv_valid nodes st" "inv_parent nodes start st" "inv_heap goal st"
    "inv_settled nodes goal {} st"
    using assms(1) by (simp_all add: search_inv_def)
  have "inv_heap goal (st\<lparr>open_heap := rest\<rparr>)"
    unfolding inv_heap_def
  proof (intro allI impI)
    fix f' g' c' s'
    assume "(f', g', c', s') \<in> set (open_heap (st\<lparr>open_heap := rest\<rparr>))"
    then have "(f', g', c', s') \<in> set (open_heap st)"
      using sub by auto
    then have "(\<exists>g''. g_score st s' = Some g'' \<and> g'' \<le> g') \<and> f' = real g' + hdist goal (fst s')"
      using i(4) unfolding inv_heap_def by blast
    then show "(\<exists>g''. g_score (st\<lparr>open_heap := rest\<rparr>) s' = Some g'' \<and> g'' \<le> g')
                 \<and> f' = real g' + hdist goal (fst s')"
      by simp
  qed
  moreover have "inv_settled nodes goal {(s, g)} (st\<lparr>open_heap := rest\<rparr>)"
    unfolding inv_settled_def
  proof (intro allI impI)
    fix t gt
    assume "g_score (st\<lparr>open_heap := rest\<rparr>) t = Some gt"
    then have "g_score st t = Some gt"
      by simp
    then have "settled nodes goal st t gt"
      using i(5) unfolding inv_settled_def by blast
    then consider (opened) f' c' where "(f', gt, c', t) \<in> set (open_heap st)"
      | (expanded) "fst t \<noteq> goal"
          "\<forall>a s'. step_action nodes (build_adjacency nodes) t a = Some s'
                \<longrightarrow> (\<exists>g'. g_score st s' = Some g' \<and> g' \<le> gt + 1)"
      unfolding settled_def by blast
    then show "settled nodes goal (st\<lparr>open_heap := rest\<rparr>) t gt \<or> (t, gt) \<in> {(s, g)}"
    proof cases
      case opened
      then have "(f', gt, c', t) = (f, g, c, s) \<or> (f', gt, c', t) \<in> set rest"
        using sup by blast
      then show ?thesis
        unfolding settled_def by auto
    next
      case expanded
      then show ?thesis
        unfolding settled_def by simp
    qed
  qed
  moreover have "inv_start start (st\<lparr>open_heap := rest\<rparr>)" "inv_valid nodes (st\<lparr>open_heap := rest\<rparr>)"
    "inv_parent nodes start (st\<lparr>open_heap := rest\<rparr>)"
    using i(1-3) by (simp_all add: inv_start_def inv_valid_def inv_parent_def)
  ultimately show ?thesis
    by (simp add: search_inv_def)
qed

lemma move_ahead_eq:
  assumes "node_table nodes" and "goal \<in> node_keys nodes" and "valid_state nodes s"
  shows "move_ahead nodes (build_adjacency nodes) goal s g st = Inr (move_relaxed nodes goal s g st)"
proof -
  have k: "fst s \<in> node_keys nodes" and c: "cardinal (snd s)"
    using assms(3) by (simp_all add: valid_state_def)
  from adjacency_lookup [OF assms(1) k] obtain neighbors where
    n: "dict_get (build_adjacency nodes) (fst s) = Inr neighbors"
      "set neighbors = {n. n \<in> node_keys nodes \<and> (\<exists>y. cardinal y \<and> n = ahead (fst s) y)}"
    by blast
  have m: "ahead (fst s) (snd s) \<in> set neighbors \<longleftrightarrow> ahead (fst s) (snd s) \<in> node_keys nodes"
    using n(2) c by blast
  show ?thesis
  proof (cases "ahead (fst s) (snd s) \<in> node_keys nodes")
    case True
    have "relax nodes goal s g (ahead (fst s) (snd s), snd s) MoveAhead
            (fst (ahead (fst s) (snd s), snd s)) st
          = Inr (relaxed goal s g (ahead (fst s) (snd s), snd s) MoveAhead st)"
      by (rule relax_eq [OF assms(1,2)]) (simp add: True)
    then show ?thesis
      using True m n(1) forward_key_ahead [OF assms(1,3)] step_move [OF assms(1,3)]
      by (simp add: move_ahead_def move_relaxed_def)
  next
    case False
    then show ?thesis
      using m n(1) forward_key_ahead [OF assms(1,3)] step_move [OF assms(1,3)]
      by (simp add: move_ahead_def move_relaxed_def)
  qed
qed

lemma expand_eq:
  assumes "node_table nodes" and "goal \<in> node_keys nodes" and "valid_state nodes s"
  shows "expand nodes (build_adjacency nodes) goal s g st = Inr (expanded nodes goal s g st)"
proof -
  have k: "fst s \<in> node_keys nodes"
    using assms(3) by (simp add: valid_state_def)
  have r: "relax nodes goal s g (fst s, y) a (fst s) st' = Inr (relaxed goal s g (fst s, y) a st')"
    for y a st'
    using relax_eq [OF assms(1,2), of "(fst s, y)" s g a st'] k by simp
  show ?thesis
    by (simp add: expand_def Let_def r move_ahead_eq [OF assms] expanded_def)
qed

lemma move_relaxed_inv:
  assumes "node_table nodes" and "search_inv nodes goal start X st"
    and "g_score st s = Some gc" and "gc \<le> g" and "valid_state nodes s"
  shows "search_inv nodes goal start X (move_relaxed nodes goal s g st)
       \<and> lowers st (move_relaxed nodes goal s g st)
       \<and> progress nodes st (move_relaxed nodes goal s g st)
       \<and> (\<forall>new. step_action nodes (build_adjacency nodes) s MoveAhead = Some new
            \<longrightarrow> (\<exists>g'. g_score (move_relaxed nodes goal s g st) new = Some g' \<and> g' \<le> g + 1))"
proof (cases "step_action nodes (build_adjacency nodes) s MoveAhead")
  case None
  then show ?thesis
    using assms(2) by (simp add: move_relaxed_def lowers_refl progress_refl)
next
  case (Some new)
  have v: "valid_state nodes new"
    using step_valid [OF assms(1,5) Some] by simp
  have e: "move_relaxed nodes goal s g st = relaxed goal s g new MoveAhead st"
    using Some by (simp add: move_relaxed_def)
  show ?thesis
    unfolding e
    using relaxed_inv [OF assms(2,3,4) Some v] relaxed_lowers [of st goal s g new MoveAhead]
      relaxed_progress [OF v, of st goal s g MoveAhead] relaxed_new [of goal s g new MoveAhead st] Some
    by simp
qed

lemma lowers_score:
  assumes "lowers st st'" and "g_score st s = Some gc" and "gc \<le> g"
  shows "\<exists>gc'. g_score st' s = Some gc' \<and> gc' \<le> g"
  using assms unfolding lowers_def by (meson order_trans)

lemma expanded_inv:
  assumes "node_table nodes" and "search_inv nodes goal start {(s, g)} st"
    and "g_score st s = Some gc" and "gc \<le> g" and "fst s \<noteq> goal"
  shows "search_inv nodes goal start {} (expanded nodes goal s g st)
       \<and> progress nodes st (expanded nodes goal s g st)"
proof -
  have v: "valid_state nodes s"
    using assms(2,3) unfolding search_inv_def inv_valid_def by blast
  define sl where "sl = (fst s, (snd s - 90) mod 360)"
  define sr where "sr = (fst s, (snd s + 90) mod 360)"
  define st1 where "st1 = relaxed goal s g sl RotateLeft st"
  define st2 where "st2 = relaxed goal s g sr RotateRight st1"
  define st3 where "st3 = move_relaxed nodes goal s g st2"
  have e: "expanded nodes goal s g st = st3"
    by (simp add: expanded_def st3_def st2_def st1_def sl_def sr_def)
  have stepl: "step_action nodes (build_adjacency nodes) s RotateLeft = Some sl"
    and stepr: "step_action nodes (build_adjacency nodes) s RotateRight = Some sr"
    by (simp_all add: step_rotate sl_def sr_def)
  have vl: "valid_state nodes sl" and vr: "valid_state nodes sr"
    using step_valid [OF assms(1) v stepl] step_valid [OF assms(1) v stepr] by simp_all
  have i1: "search_inv nodes goal start {(s, g)} st1"
    unfolding st1_def by (rule relaxed_inv [OF assms(2,3,4) stepl vl])
  have l1: "lowers st st1" and p1: "progress nodes st st1"
    unfolding st1_def by (rule relaxed_lowers, rule relaxed_progress [OF vl])
  obtain gc1 where g1: "g_score st1 s = Some gc1" "gc1 \<le> g"
    using lowers_score [OF l1 assms(3,4)] by blast
  have i2: "search_inv nodes goal start {(s, g)} st2"
    unfolding st2_def by (rule relaxed_inv [OF i1 g1 stepr vr])
  have l2: "lowers st1 st2" and p2: "progress nodes st1 st2"
    unfolding st2_def by (rule relaxed_lowers, rule relaxed_progress [OF vr])
  obtain gc2 where g2: "g_score st2 s = Some gc2" "gc2 \<le> g"
    using lowers_score [OF l2 g1] by blast
  note m = move_relaxed_inv [OF assms(1) i2 g2 v, folded st3_def]
  have i3: "search_inv nodes goal start {(s, g)} st3" and l3: "lowers st2 st3"
    and p3: "progress nodes st2 st3"
    using m by simp_all
  have nl: "\<exists>g'. g_score st3 sl = Some g' \<and> g' \<le> g + 1"
  proof -
    obtain a where "g_score st1 sl = Some a" "a \<le> g + 1"
      using relaxed_new [of goal s g sl RotateLeft st] unfolding st1_def by blast
    then show ?thesis
      using lowers_score [OF lowers_trans [OF l2 l3]] by blast
  qed
  have nr: "\<exists>g'. g_score st3 sr = Some g' \<and> g' \<le> g + 1"
  proof -
    obtain a where "g_score st2 sr = Some a" "a \<le> g + 1"
      using relaxed_new [of goal s g sr RotateRight st1] unfolding st2_def by blast
    then show ?thesis
      using lowers_score [OF l3] by blast
  qed
  have nm: "\<forall>new. step_action nodes (build_adjacency nodes) s MoveAhead = Some new
            \<longrightarrow> (\<exists>g'. g_score st3 new = Some g' \<and> g' \<le> g + 1)"
    using m by simp
  have succ: "\<exists>g'. g_score st3 s' = Some g' \<and> g' \<le> g + 1"
    if "step_action nodes (build_adjacency nodes) s a = Some s'" for a s'
  proof (cases a)
    case MoveAhead
    then show ?thesis using that nm by blast
  next
    case RotateLeft
    then show ?thesis using that stepl nl by simp
  next
    case RotateRight
    then show ?thesis using that stepr nr by simp
  qed
  have set3: "settled nodes goal st3 s g"
    unfolding settled_def using assms(5) succ by blast
  have "inv_settled nodes goal {} st3"
    unfolding inv_settled_def
  proof (intro allI impI)
    fix t gt
    assume "g_score st3 t = Some gt"
    then have "settled nodes goal st3 t gt \<or> (t, gt) \<in> {(s, g)}"
      using i3 unfolding search_inv_def inv_settled_def by blast
    then show "settled nodes goal st3 t gt \<or> (t, gt) \<in> {}"
      using set3 by auto
  qed
  then have "search_inv nodes goal start {} st3"
    using i3 by (simp add: search_inv_def)
  moreover have "progress nodes st st3"
    using progress_trans [OF progress_trans [OF p1 p2] p3] .
  ultimately show ?thesis
    unfolding e by simp
qed

lemma reconstruct_plan:
  assumes "inv_start start st" and "inv_parent nodes start st"
  shows "g_score st s = Some g
    \<Longrightarrow> \<exists>acts. reconstruct (came_from st) s acc = Some (acc @ acts)
          \<and> run_actions nodes (build_adjacency nodes) start (rev acts) = Some s
          \<and> length acts \<le> g"
proof (induction g arbitrary: s acc rule: less_induct)
  case (less g)
  show ?case
  proof (cases "came_from st s")
    case None
    then have "s = start"
      using assms(2) less.prems unfolding inv_parent_def by blast
    moreover have "reconstruct (came_from st) s acc = Some acc"
      using None by (subst reconstruct.simps) simp
    ultimately show ?thesis
      by (intro exI [of _ "[]"]) simp
  next
    case (Some pa)
    obtain p a where pa: "pa = (p, a)"
      by (cases pa) auto
    from Some pa assms(2) obtain gs gp where
      o: "g_score st s = Some gs" "g_score st p = Some gp" "gp < gs"
        "step_action nodes (build_adjacency nodes) p a = Some s"
      unfolding inv_parent_def by blast
    have lt: "gp < g"
      using o(1,3) less.prems by simp
    from less.IH [OF lt o(2), of "acc @ [a]"] obtain acts where
      r: "reconstruct (came_from st) p (acc @ [a]) = Some ((acc @ [a]) @ acts)"
        "run_actions nodes (build_adjacency nodes) start (rev acts) = Some p"
        "length acts \<le> gp"
      by blast
    have "reconstruct (came_from st) s acc = Some (acc @ (a # acts))"
      using Some pa r(1) by (subst reconstruct.simps) simp
    moreover have "run_actions nodes (build_adjacency nodes) start (rev (a # acts)) = Some s"
      using r(2) o(4) by (simp add: run_actions_append)
    moreover have "length (a # acts) \<le> g"
      using r(3) lt by simp
    ultimately show ?thesis
      by blast
  qed
qed

lemma frontier:
  assumes "node_table nodes" and "search_inv nodes goal start {} st"
  shows "g_score st s = Some g
    \<Longrightarrow> run_actions nodes (build_adjacency nodes) s plan = Some t \<Longrightarrow> fst t = goal
    \<Longrightarrow> \<exists>f g' c s'. (f, g', c, s') \<in> set (open_heap st) \<and> f \<le> real g + real (length plan)"
proof (induction plan arbitrary: s g)
  case Nil
  have v: "valid_state nodes s"
    using assms(2) Nil.prems(1) unfolding search_inv_def inv_valid_def by blast
  have "settled nodes goal st s g"
    using assms(2) Nil.prems(1) unfolding search_inv_def inv_settled_def by blast
  moreover have "fst s = goal"
    using Nil.prems by simp
  ultimately obtain f c where e: "(f, g, c, s) \<in> set (open_heap st)"
    unfolding settled_def by blast
  then have "f = real g + hdist goal (fst s)"
    using assms(2) unfolding search_inv_def inv_heap_def by blast
  then have "f \<le> real g + real (length ([] :: action list))"
    using \<open>fst s = goal\<close> by simp
  then show ?case
    using e by blast
next
  case (Cons a plan)
  have v: "valid_state nodes s"
    using assms(2) Cons.prems(1) unfolding search_inv_def inv_valid_def by blast
  from Cons.prems(2) obtain s' where
    s': "step_action nodes (build_adjacency nodes) s a = Some s'"
      "run_actions nodes (build_adjacency nodes) s' plan = Some t"
    by (auto split: option.splits)
  have "settled nodes goal st s g"
    using assms(2) Cons.prems(1) unfolding search_inv_def inv_settled_def by blast
  then consider (opened) f c where "(f, g, c, s) \<in> set (open_heap st)"
    | (closed) g' where "g_score st s' = Some g'" "g' \<le> g + 1"
    unfolding settled_def using s'(1) by blast
  then show ?case
  proof cases
    case opened
    then have "f = real g + hdist goal (fst s)"
      using assms(2) unfolding search_inv_def inv_heap_def by blast
    moreover have "hdist goal (fst s) \<le> hdist goal (fst t) + real (length (a # plan))"
      by (rule admissible [OF assms(1) v Cons.prems(2)])
    ultimately have "f \<le> real g + real (length (a # plan))"
      using Cons.prems(3) by simp
    then show ?thesis
      using opened by blast
  next
    case closed
    from Cons.IH [OF closed(1) s'(2) Cons.prems(3)] obtain f g'' c s'' where
      "(f, g'', c, s'') \<in> set (open_heap st)" "f \<le> real g' + real (length plan)"
      by blast
    moreover have "real g' + real (length plan) \<le> real g + real (length (a # plan))"
      using closed(2) by simp
    ultimately show ?thesis
      by (meson order_trans)
  qed
qed

lemma init_inv:
  assumes "valid_state nodes start"
  shows "search_inv nodes goal start {} (astar_init start (hdist goal (fst start)))"
proof -
  let ?st = "astar_init start (hdist goal (fst start))"
  have g: "g_score ?st = [start \<mapsto> 0]" and c: "came_from ?st = Map.empty"
    and h: "open_heap ?st = [(hdist goal (fst start), 0, 0, start)]"
    by (simp_all add: astar_init_def heappush_def)
  have "inv_start start ?st"
    by (simp add: inv_start_def g c)
  moreover have "inv_valid nodes ?st"
    unfolding inv_valid_def g using assms by (auto split: if_splits)
  moreover have "inv_parent nodes start ?st"
    unfolding inv_parent_def g c by (auto split: if_splits)
  moreover have "inv_heap goal ?st"
    unfolding inv_heap_def g h by auto
  moreover have "inv_settled nodes goal {} ?st"
    unfolding inv_settled_def settled_def g h by (auto split: if_splits)
  ultimately show ?thesis
    by (simp add: search_inv_def)
qed

lemma same_scores:
  "g_score st' = g_score st \<Longrightarrow> unseen nodes st' = unseen nodes st \<and> cost_sum nodes st' = cost_sum nodes st"
  by (simp add: unseen_def cost_sum_def)

lemma search_measure_wf:
  "wf (inv_image (less_than <*lex*> less_than <*lex*> less_than) (search_measure nodes))"
  by (intro wf_inv_image wf_lex_prod wf_less_than)

lemma astar_loop_correct:
  assumes "node_table nodes" and "goal \<in> node_keys nodes"
    and "run_actions nodes (build_adjacency nodes) start plan0 = Some t0" and "fst t0 = goal"
  shows "search_inv nodes goal start {} st
    \<Longrightarrow> \<exists>plan yaw. astar_loop nodes (build_adjacency nodes) goal st = Some (Inr plan)
          \<and> run_actions nodes (build_adjacency nodes) start plan = Some (goal, yaw)
          \<and> (\<forall>plan' t'. run_actions nodes (build_adjacency nodes) start plan' = Some t' \<and> fst t' = goal
                \<longrightarrow> length plan \<le> length plan')"
proof (induction st rule: wf_induct_rule [OF search_measure_wf [of nodes]])
  case (1 st)
  note inv = "1.prems"
  have i: "inv_start start st" "inv_valid nodes st" "inv_parent nodes start st" "inv_heap goal st"
    using inv by (simp_all add: search_inv_def)
  have g0: "g_score st start = Some 0"
    using i(1) by (simp add: inv_start_def)
  have front: "\<exists>f g' c s'. (f, g', c, s') \<in> set (open_heap st) \<and> f \<le> real (length plan')"
    if "run_actions nodes (build_adjacency nodes) start plan' = Some t'" "fst t' = goal" for plan' t'
    using frontier [OF assms(1) inv g0 that] by simp
  from front [OF assms(3,4)] have "open_heap st \<noteq> []"
    by auto
  then obtain e rest where pop: "heappop (open_heap st) = Some (e, rest)"
    using heappop_none [of "open_heap st"] by (cases "heappop (open_heap st)") auto
  obtain f g c s where e: "e = (f, g, c, s)"
    by (cases e) auto
  note pop = pop [unfolded e]
  note least = heappop_least [OF pop]
  have mem: "(f, g, c, s) \<in> set (open_heap st)"
    using least by simp
  from mem i(4) obtain gc where gc: "g_score st s = Some gc" "gc \<le> g"
    and f: "f = real g + hdist goal (fst s)"
    unfolding inv_heap_def by blast
  have bound: "f \<le> real (length plan')"
    if "run_actions nodes (build_adjacency nodes) start plan' = Some t'" "fst t' = goal" for plan' t'
  proof -
    from front [OF that] obtain f' g' c' s' where
      e': "(f', g', c', s') \<in> set (open_heap st)" "f' \<le> real (length plan')"
      by blast
    have "(f, g, c, s) \<le> (f', g', c', s')"
      using least e'(1) by blast
    then have "f \<le> f'"
      by auto
    then show ?thesis
      using e'(2) by simp
  qed
  show ?case
  proof (cases "fst s = goal")
    case True
    from reconstruct_plan [OF i(1,3) gc(1), of "[]"] obtain acts where
      r: "reconstruct (came_from st) s [] = Some acts"
        "run_actions nodes (build_adjacency nodes) start (rev acts) = Some s" "length acts \<le> gc"
      by auto
    have loop: "astar_loop nodes (build_adjacency nodes) goal st = Some (Inr (rev acts))"
      using pop True r(1) by (subst astar_loop.simps) simp
    have "real (length (rev acts)) \<le> f"
      using r(3) gc(2) f True by simp
    then have "length (rev acts) \<le> length plan'"
      if "run_actions nodes (build_adjacency nodes) start plan' = Some t'" "fst t' = goal" for plan' t'
      using bound [OF that] by simp
    moreover have "run_actions nodes (build_adjacency nodes) start (rev acts) = Some (goal, snd s)"
      using r(2) True by (cases s) simp
    ultimately show ?thesis
      using loop by blast
  next
    case False
    let ?st0 = "st\<lparr>open_heap := rest\<rparr>"
    let ?st' = "expanded nodes goal s g ?st0"
    have v: "valid_state nodes s"
      using i(2) gc(1) unfolding inv_valid_def by blast
    have inv0: "search_inv nodes goal start {(s, g)} ?st0"
      by (rule popped_inv [OF inv pop])
    have gc0: "g_score ?st0 s = Some gc"
      using gc(1) by simp
    from expanded_inv [OF assms(1) inv0 gc0 gc(2) False]
    have inv': "search_inv nodes goal start {} ?st'" and prog: "progress nodes ?st0 ?st'"
      by simp_all
    have ex: "expand nodes (build_adjacency nodes) goal s g ?st0 = Inr ?st'"
      by (rule expand_eq [OF assms(1,2) v])
    have loop: "astar_loop nodes (build_adjacency nodes) goal st
                = astar_loop nodes (build_adjacency nodes) goal ?st'"
      using pop False ex by (subst astar_loop.simps) simp
    have same: "unseen nodes ?st0 = unseen nodes st" "cost_sum nodes ?st0 = cost_sum nodes st"
      using same_scores [of ?st0 st nodes] by simp_all
    have "open_heap st \<noteq> []"
      using mem by auto
    then have "0 < length (open_heap st)"
      by simp
    then have len: "length rest < length (open_heap st)"
      using least by (simp add: length_remove1)
    have "(search_measure nodes ?st', search_measure nodes st)
            \<in> less_than <*lex*> less_than <*lex*> less_than"
    proof (cases "?st' = ?st0")
      case True
      then show ?thesis
        using same len by (simp add: search_measure_def)
    next
      case False
      then have "((unseen nodes ?st', cost_sum nodes ?st'), (unseen nodes st, cost_sum nodes st))
                    \<in> less_than <*lex*> less_than"
        using prog same by (simp add: progress_def)
      then show ?thesis
        by (auto simp: search_measure_def)
    qed
    then have "(?st', st) \<in> inv_image (less_than <*lex*> less_than <*lex*> less_than)
                               (search_measure nodes)"
      by simp
    from "1.IH" [OF this inv'] show ?thesis
      unfolding loop .
  qed
qed

lemma turn_exists:
  assumes "cardinal y" and "cardinal y'"
  shows "\<exists>rots. run_actions nodes adjacency (k, y) rots = Some (k, y')"
proof -
  have "run_actions nodes adjacency (k, y) [] = Some (k, y')
      \<or> run_actions nodes adjacency (k, y) [RotateRight] = Some (k, y')
      \<or> run_actions nodes adjacency (k, y) [RotateRight, RotateRight] = Some (k, y')
      \<or> run_actions nodes adjacency (k, y) [RotateLeft] = Some (k, y')"
    using assms by (auto simp: cardinal_def step_action_def)
  then show ?thesis by blast
qed

lemma reachable_plan:
  assumes "node_table nodes" and "(a, b) \<in> (adjacent (build_adjacency nodes))\<^sup>*"
    and "valid_state nodes (a, y)"
  shows "\<exists>plan y'. run_actions nodes (build_adjacency nodes) (a, y) plan = Some (b, y')"
  using assms(2)
proof (induction rule: rtrancl_induct)
  case base
  show ?case by (intro exI [of _ "[]"]) simp
next
  case (step b c)
  then obtain plan y1 where p: "run_actions nodes (build_adjacency nodes) (a, y) plan = Some (b, y1)"
    by blast
  have v: "valid_state nodes (b, y1)"
    by (rule run_actions_valid [OF assms(1,3) p])
  then have kb: "b \<in> node_keys nodes" and c1: "cardinal y1"
    by (simp_all add: valid_state_def)
  from step.hyps(2) obtain ns where ns: "map_of (build_adjacency nodes) b = Some ns" "c \<in> set ns"
    unfolding adjacent_def by blast
  from adjacency_lookup [OF assms(1) kb] ns obtain yc where
    c: "c \<in> node_keys nodes" "cardinal yc" "c = ahead b yc"
    by (auto simp: dict_get_def)
  from turn_exists [OF c1 c(2)] obtain rots where
    r: "run_actions nodes (build_adjacency nodes) (b, y1) rots = Some (b, yc)"
    by blast
  have vb: "valid_state nodes (b, yc)"
    using kb c(2) by (simp add: valid_state_def)
  have "step_action nodes (build_adjacency nodes) (b, yc) MoveAhead = Some (c, yc)"
    using step_move [OF assms(1) vb] c(1,3) by simp
  then have "run_actions nodes (build_adjacency nodes) (a, y) (plan @ rots @ [MoveAhead]) = Some (c, yc)"
    using p r by (simp add: run_actions_append)
  then show ?case by blast
qed

text \<open>
  C1. For a node table, the adjacency built from it, a cardinal start heading, and start
  and goal keys of the table with the goal reachable from the start along the adjacency:
  \<open>astar_actions\<close> returns a plan; executed from the start key and heading the plan ends
  at the goal key, with some heading; no plan that ends at the goal key is shorter; and the
  plan is empty when the start key is the goal key.
\<close>

theorem astar_actions_shortest:
  assumes "node_table nodes" and "cardinal start_yaw"
    and "start_key \<in> node_keys nodes" and "goal_key \<in> node_keys nodes"
    and "(start_key, goal_key) \<in> (adjacent (build_adjacency nodes))\<^sup>*"
  shows "\<exists>plan yaw.
      astar_actions nodes (build_adjacency nodes) start_key start_yaw goal_key = Some (Inr plan)
    \<and> set plan \<subseteq> {MoveAhead, RotateLeft, RotateRight}
    \<and> run_actions nodes (build_adjacency nodes) (start_key, start_yaw) plan = Some (goal_key, yaw)
    \<and> (\<forall>plan' yaw'. run_actions nodes (build_adjacency nodes) (start_key, start_yaw) plan'
                        = Some (goal_key, yaw') \<longrightarrow> length plan \<le> length plan')
    \<and> (start_key = goal_key \<longrightarrow> plan = [])"
proof (cases "start_key = goal_key")
  case True
  have "astar_actions nodes (build_adjacency nodes) start_key start_yaw goal_key = Some (Inr [])"
    using True by (simp add: astar_actions_def)
  moreover have "run_actions nodes (build_adjacency nodes) (start_key, start_yaw) []
                 = Some (goal_key, start_yaw)"
    using True by simp
  ultimately show ?thesis
    by (intro exI [of _ "[]"] exI [of _ start_yaw]) simp
next
  case False
  let ?start = "(start_key, start_yaw)"
  have v: "valid_state nodes ?start"
    using assms(2,3) by (simp add: valid_state_def)
  from reachable_plan [OF assms(1,5) v] obtain plan0 y0 where
    p0: "run_actions nodes (build_adjacency nodes) ?start plan0 = Some (goal_key, y0)"
    by blast
  have h: "astar_heuristic nodes goal_key start_key = Inr (hdist goal_key start_key)"
    by (rule heuristic_value [OF assms(1,3,4)])
  have inv: "search_inv nodes goal_key ?start {} (astar_init ?start (hdist goal_key (fst ?start)))"
    by (rule init_inv [OF v])
  from astar_loop_correct [OF assms(1,4) p0 _ inv] obtain plan yaw where
    l: "astar_loop nodes (build_adjacency nodes) goal_key (astar_init ?start (hdist goal_key start_key))
          = Some (Inr plan)"
      "run_actions nodes (build_adjacency nodes) ?start plan = Some (goal_key, yaw)"
      "\<forall>plan' t'. run_actions nodes (build_adjacency nodes) ?start plan' = Some t' \<and> fst t' = goal_key
                \<longrightarrow> length plan \<le> length plan'"
    by auto
  have "astar_actions nodes (build_adjacency nodes) start_key start_yaw goal_key = Some (Inr plan)"
    using False h l(1) by (simp add: astar_actions_def)
  moreover have "set plan \<subseteq> {MoveAhead, RotateLeft, RotateRight}"
  proof
    fix a assume "a \<in> set plan"
    show "a \<in> {MoveAhead, RotateLeft, RotateRight}" by (cases a) simp_all
  qed
  moreover have "\<forall>plan' yaw'. run_actions nodes (build_adjacency nodes) ?start plan'
                        = Some (goal_key, yaw') \<longrightarrow> length plan \<le> length plan'"
  proof (intro allI impI)
    fix plan' yaw'
    assume "run_actions nodes (build_adjacency nodes) ?start plan' = Some (goal_key, yaw')"
    moreover have "fst (goal_key, yaw') = goal_key" by simp
    ultimately show "length plan \<le> length plan'"
      using l(3) by blast
  qed
  ultimately show ?thesis
    using l(2) False by blast
qed

lemma build_node_lookup_table:
  "\<forall>p \<in> set positions. exact p \<Longrightarrow> node_table (build_node_lookup positions)"
  using build_node_lookup_entries [of positions] by (simp add: node_table_def)

theorem astar_actions_shortest_witness:
  "node_table (build_node_lookup square_cells) \<and> cardinal 0
   \<and> (0, 0) \<in> node_keys (build_node_lookup square_cells)
   \<and> (25, 25) \<in> node_keys (build_node_lookup square_cells)
   \<and> ((0, 0), (25, 25)) \<in> (adjacent (build_adjacency (build_node_lookup square_cells)))\<^sup>*
   \<and> (\<exists>plan yaw.
         astar_actions (build_node_lookup square_cells)
           (build_adjacency (build_node_lookup square_cells)) (0, 0) 0 (25, 25) = Some (Inr plan)
       \<and> run_actions (build_node_lookup square_cells)
           (build_adjacency (build_node_lookup square_cells)) ((0, 0), 0) plan = Some ((25, 25), yaw)
       \<and> plan = [MoveAhead, RotateRight, MoveAhead])"
proof -
  let ?N = "build_node_lookup square_cells"
  have t: "node_table ?N"
    unfolding square_nodes by (simp add: node_table_def key_position_def)
  have c: "cardinal 0"
    by (simp add: cardinal_def)
  have s: "(0, 0) \<in> node_keys ?N" and g: "(25, 25) \<in> node_keys ?N"
    unfolding square_nodes by (simp_all add: node_keys_def)
  have "((0, 0), (0, 25)) \<in> adjacent (build_adjacency ?N)"
    "((0, 25), (25, 25)) \<in> adjacent (build_adjacency ?N)"
    unfolding square_nodes square_adjacency by (simp_all add: adjacent_def)
  then have r: "((0, 0), (25, 25)) \<in> (adjacent (build_adjacency ?N))\<^sup>*"
    by (meson rtrancl.rtrancl_into_rtrancl rtrancl.rtrancl_refl)
  from astar_actions_shortest [OF t c s g r] obtain plan yaw where
    p: "astar_actions ?N (build_adjacency ?N) (0, 0) 0 (25, 25) = Some (Inr plan)"
      "run_actions ?N (build_adjacency ?N) ((0, 0), 0) plan = Some ((25, 25), yaw)"
    by blast
  have "plan = [MoveAhead, RotateRight, MoveAhead]"
    using p(1) square_astar by simp
  then show ?thesis
    using t c s g r p by blast
qed

end
